theory Spec2Isabelle
  imports Complex_Main "HOL-Library.Multiset"
begin

section \<open>The decision graph of \<open>cowboys::GraphNode\<close>\<close>

text \<open>
  A shallow embedding of the scalar computation graph: the class \<open>GraphNode\<close>, the node
  functions (\<open>Sum\<close>, \<open>And\<close>, ...) and the table \<open>FUNCTION_SET\<close>.

  \<^item> Nodes live on a heap: a partial map from addresses to node records. A
    \<open>std::shared_ptr<GraphNode>\<close> and a raw \<open>GraphNode *\<close> are both an address; an
    address that holds no node stands for a null or dangling pointer, and dereferencing it
    is the error \<open>Undefined\<close>.
  \<^item> A \<open>double\<close> is modelled as a \<open>real\<close>, and every arithmetic operation on doubles
    is rounded to the nearest double, ties to even (\<open>rounded\<close>). Infinities and NaN are
    outside the model: where the code's result is infinite, the model keeps the unrounded
    value. The grouping of \<open>std::reduce\<close>, which the standard leaves open, is taken from
    the left; \<open>reduce_grouped\<close> evaluates any other grouping.
  \<^item> A \<open>NodeFunction\<close> (a function pointer) is a tag naming the function, \<open>None\<close> is
    \<open>nullptr\<close>.
  \<^item> \<open>GetOutput\<close> and \<open>RecursiveInvalidateCache\<close> recurse through the graph and do
    not return on a cycle. They take fuel, the depth of the call stack they may use; running
    out of it is the error \<open>OutOfFuel\<close>.
\<close>

subsection \<open>Data\<close>

type_synonym addr = nat

datatype NodeFunction =
    SumFn | AndFn | AnyEqFn | NotFn | GateFn | SinFn | CosFn | ProductFn | ExpFn
  | LessThanFn | GreaterThanFn | MaxFn | MinFn | NegSumFn | SquareFn | PosClampFn
  | NegClampFn | SqrtFn

record GraphNode =
  inputs :: "addr list"
  function_pointer :: "NodeFunction option"
  default_output :: real
  outputs :: "addr list"
  cached_output :: real
  cached_output_valid :: bool

type_synonym heap = "addr \<Rightarrow> GraphNode option"

datatype error = OutOfFuel | Undefined | OutOfRange

type_synonym 'a result = "error + 'a"

text \<open>The evaluator an operator is given for the nodes it reads: \<open>GetOutput\<close> with the fuel left.\<close>

type_synonym evaluator = "heap \<Rightarrow> addr \<Rightarrow> (real \<times> heap) result"

subsection \<open>Constructors\<close>

text \<open>\<open>GraphNode()\<close>, \<open>GraphNode(double default_value)\<close> and \<open>GraphNode(NodeFunction function)\<close>.\<close>

definition GraphNode_new :: GraphNode where
  "GraphNode_new = \<lparr>inputs = [], function_pointer = None, default_output = 0, outputs = [],
     cached_output = 0, cached_output_valid = False\<rparr>"

definition GraphNode_default :: "real \<Rightarrow> GraphNode" where
  "GraphNode_default default_value = GraphNode_new\<lparr>default_output := default_value\<rparr>"

definition GraphNode_function :: "NodeFunction option \<Rightarrow> GraphNode" where
  "GraphNode_function function = GraphNode_new\<lparr>function_pointer := function\<rparr>"

subsection \<open>Cache invalidation\<close>

definition AddOutput :: "heap \<Rightarrow> addr \<Rightarrow> addr \<Rightarrow> heap result" where
  "AddOutput h this node =
     (case h this of
        None \<Rightarrow> Inl Undefined
      | Some n \<Rightarrow> Inr (h(this \<mapsto> n\<lparr>outputs := outputs n @ [node]\<rparr>)))"

text \<open>The loop \<open>for (auto &output : outputs) output->RecursiveInvalidateCache()\<close>.\<close>

fun for_each_output :: "(heap \<Rightarrow> addr \<Rightarrow> heap result) \<Rightarrow> addr list \<Rightarrow> heap \<Rightarrow> heap result" where
  "for_each_output f [] h = Inr h"
| "for_each_output f (output # rest) h =
     (case f h output of Inl e \<Rightarrow> Inl e | Inr h' \<Rightarrow> for_each_output f rest h')"

fun RecursiveInvalidateCache :: "nat \<Rightarrow> heap \<Rightarrow> addr \<Rightarrow> heap result" where
  "RecursiveInvalidateCache 0 h this = Inl OutOfFuel"
| "RecursiveInvalidateCache (Suc fuel) h this =
     (case h this of
        None \<Rightarrow> Inl Undefined
      | Some n \<Rightarrow>
          for_each_output (RecursiveInvalidateCache fuel) (outputs n)
            (h(this \<mapsto> n\<lparr>cached_output_valid := False\<rparr>)))"

subsection \<open>Reading the inputs\<close>

text \<open>\<open>std::transform\<close> over a list of nodes with \<open>node->GetOutput()\<close>, in order.\<close>

fun transform_outputs :: "evaluator \<Rightarrow> heap \<Rightarrow> addr list \<Rightarrow> (real list \<times> heap) result" where
  "transform_outputs ev h [] = Inr ([], h)"
| "transform_outputs ev h (node # rest) =
     (case ev h node of
        Inl e \<Rightarrow> Inl e
      | Inr (v, h') \<Rightarrow>
          (case transform_outputs ev h' rest of
             Inl e \<Rightarrow> Inl e
           | Inr (vs, h'') \<Rightarrow> Inr (v # vs, h'')))"

definition GetInputValues :: "evaluator \<Rightarrow> heap \<Rightarrow> addr \<Rightarrow> (real list \<times> heap) result" where
  "GetInputValues ev h this =
     (case h this of
        None \<Rightarrow> Inl Undefined
      | Some n \<Rightarrow> transform_outputs ev h (inputs n))"

text \<open>
  \<open>std::transform\<close> over the indices with \<open>inputs.at(index)->GetOutput()\<close>;
  \<open>at\<close> throws \<open>std::out_of_range\<close> past the end.
\<close>

fun transform_at :: "evaluator \<Rightarrow> heap \<Rightarrow> addr \<Rightarrow> nat list \<Rightarrow> (real list \<times> heap) result" where
  "transform_at ev h this [] = Inr ([], h)"
| "transform_at ev h this (index # rest) =
     (case h this of
        None \<Rightarrow> Inl Undefined
      | Some n \<Rightarrow>
          if index < length (inputs n)
          then
            (case ev h (inputs n ! index) of
               Inl e \<Rightarrow> Inl e
             | Inr (v, h') \<Rightarrow>
                 (case transform_at ev h' this rest of
                    Inl e \<Rightarrow> Inl e
                  | Inr (vs, h'') \<Rightarrow> Inr (v # vs, h'')))
          else Inl OutOfRange)"

text \<open>
  \<open>GetInputValues<N>(indices)\<close>. The result \<open>None\<close> is \<open>std::nullopt\<close>. With \<open>N = 0\<close>
  the source dereferences the end iterator that \<open>std::max_element\<close> returns.
\<close>

definition GetInputValuesN ::
  "evaluator \<Rightarrow> heap \<Rightarrow> addr \<Rightarrow> nat list \<Rightarrow> (real list option \<times> heap) result" where
  "GetInputValuesN ev h this indices =
     (case h this of
        None \<Rightarrow> Inl Undefined
      | Some n \<Rightarrow>
          (case indices of
             [] \<Rightarrow> Inl Undefined
           | i # is \<Rightarrow>
               (let max_index = foldl max i is in
                if max_index \<ge> length (inputs n) then Inr (None, h)
                else
                  (case transform_at ev h this indices of
                     Inl e \<Rightarrow> Inl e
                   | Inr (values, h') \<Rightarrow> Inr (Some values, h')))))"

definition GetDefaultOutput :: "heap \<Rightarrow> addr \<Rightarrow> real result" where
  "GetDefaultOutput h this =
     (case h this of None \<Rightarrow> Inl Undefined | Some n \<Rightarrow> Inr (default_output n))"

definition IsCacheValid :: "heap \<Rightarrow> addr \<Rightarrow> bool result" where
  "IsCacheValid h this =
     (case h this of None \<Rightarrow> Inl Undefined | Some n \<Rightarrow> Inr (cached_output_valid n))"

subsection \<open>Double arithmetic\<close>

text \<open>
  The finite values of a \<open>double\<close> (IEEE 754 binary64) are the reals \<open>m * 2 ^ e\<close> with an
  integer \<open>\<bar>m\<bar> < 2 ^ 53\<close> and \<open>- 1074 \<le> e \<le> 971\<close>. An operation returns the exact result
  rounded to the nearest of them, a tie going to the even \<open>m\<close>; \<open>None\<close> stands for a result
  that is infinite.
\<close>

definition round_half_even :: "real \<Rightarrow> int" where
  "round_half_even q =
     (let f = \<lfloor>q\<rfloor> in
      if q - of_int f < 1 / 2 then f
      else if 1 / 2 < q - of_int f then f + 1
      else if even f then f else f + 1)"

text \<open>
  In the binade \<open>2 ^ e \<le> \<bar>x\<bar> < 2 ^ (e + 1)\<close> the doubles are \<open>2 ^ (e - 52)\<close> apart; below
  \<open>2 ^ - 1022\<close> (the subnormal numbers) they are \<open>2 ^ - 1074\<close> apart.
\<close>

definition to_double :: "real \<Rightarrow> real option" where
  "to_double x =
     (if x = 0 then Some 0
      else
        (let e = max \<lfloor>log 2 \<bar>x\<bar>\<rfloor> (- 1022);
             u = 2 powr of_int (e - 52);
             r = of_int (round_half_even (x / u)) * u
         in if \<bar>r\<bar> < 2 powr 1024 then Some r else None))"



text \<open>
  The double a node stores for the exact result \<open>x\<close>. An infinite result has no place in
  the model, which keeps \<open>x\<close> then.
\<close>

definition rounded :: "real \<Rightarrow> real" where
  "rounded x = (case to_double x of Some r \<Rightarrow> r | None \<Rightarrow> x)"





subsection \<open>The node functions\<close>

text \<open>A function that reads all inputs and returns \<open>g vals\<close>.\<close>

definition on_values :: "(real list \<Rightarrow> real) \<Rightarrow> evaluator \<Rightarrow> heap \<Rightarrow> addr \<Rightarrow> (real \<times> heap) result" where
  "on_values g ev h node =
     (case GetInputValues ev h node of
        Inl e \<Rightarrow> Inl e
      | Inr (vals, h') \<Rightarrow> Inr (g vals, h'))"

text \<open>The same, returning the node's default output on no input.\<close>

definition on_values_or_default ::
  "(real list \<Rightarrow> real) \<Rightarrow> evaluator \<Rightarrow> heap \<Rightarrow> addr \<Rightarrow> (real \<times> heap) result" where
  "on_values_or_default g ev h node =
     (case GetInputValues ev h node of
        Inl e \<Rightarrow> Inl e
      | Inr (vals, h') \<Rightarrow>
          (if vals = []
           then (case GetDefaultOutput h' node of Inl e \<Rightarrow> Inl e | Inr d \<Rightarrow> Inr (d, h'))
           else Inr (g vals, h')))"

text \<open>
  \<open>std::reduce(first, last, init, op)\<close> and
  \<open>std::transform_reduce(first, last, init, std::plus, f)\<close> on doubles, grouped from the
  left: every application of \<open>op\<close>, of \<open>std::plus\<close> and of \<open>f\<close> is rounded. (For \<open>std::sin\<close>,
  \<open>std::cos\<close> and \<open>std::exp\<close> the library is taken to round correctly.)
\<close>

definition reduce :: "real \<Rightarrow> (real \<Rightarrow> real \<Rightarrow> real) \<Rightarrow> real list \<Rightarrow> real" where
  "reduce init binop vals = foldl (\<lambda>acc val. rounded (binop acc val)) init vals"

definition transform_reduce :: "(real \<Rightarrow> real) \<Rightarrow> real list \<Rightarrow> real" where
  "transform_reduce f vals =
     foldl (\<lambda>acc val. rounded (acc + val)) 0 (map (\<lambda>val. rounded (f val)) vals)"

text \<open>\<open>std::ranges::is_sorted(vals, cmp)\<close>: no element is \<open>cmp\<close>-before its predecessor.\<close>

fun is_sorted :: "(real \<Rightarrow> real \<Rightarrow> bool) \<Rightarrow> real list \<Rightarrow> bool" where
  "is_sorted cmp [] = True"
| "is_sorted cmp [x] = True"
| "is_sorted cmp (x # y # rest) = (\<not> cmp y x \<and> is_sorted cmp (y # rest))"

text \<open>\<open>*std::max_element\<close> and \<open>*std::min_element\<close> of a range that is not empty.\<close>

definition max_element :: "real list \<Rightarrow> real" where
  "max_element vals = foldl (\<lambda>largest v. if largest < v then v else largest) (hd vals) (tl vals)"

definition min_element :: "real list \<Rightarrow> real" where
  "min_element vals = foldl (\<lambda>smallest v. if v < smallest then v else smallest) (hd vals) (tl vals)"

definition bool_to_double :: "bool \<Rightarrow> real" where
  "bool_to_double b = (if b then 1 else 0)"

definition Sum :: "evaluator \<Rightarrow> heap \<Rightarrow> addr \<Rightarrow> (real \<times> heap) result" where
  "Sum = on_values (reduce 0 (+))"

definition And :: "evaluator \<Rightarrow> heap \<Rightarrow> addr \<Rightarrow> (real \<times> heap) result" where
  "And = on_values (\<lambda>vals. if list_ex (\<lambda>val. val = 0) vals then 0 else 1)"

definition AnyEq :: "evaluator \<Rightarrow> heap \<Rightarrow> addr \<Rightarrow> (real \<times> heap) result" where
  "AnyEq = on_values_or_default
     (\<lambda>vals. if list_ex (\<lambda>v. hd vals = v) (tl vals) then 1 else 0)"

definition Not_fn :: "evaluator \<Rightarrow> heap \<Rightarrow> addr \<Rightarrow> (real \<times> heap) result" where
  "Not_fn ev h node =
     (case GetInputValuesN ev h node [0] of
        Inl e \<Rightarrow> Inl e
      | Inr (None, h') \<Rightarrow>
          (case GetDefaultOutput h' node of Inl e \<Rightarrow> Inl e | Inr d \<Rightarrow> Inr (d, h'))
      | Inr (Some vals, h') \<Rightarrow> Inr (if vals ! 0 = 0 then 1 else 0, h'))"

definition Gate :: "evaluator \<Rightarrow> heap \<Rightarrow> addr \<Rightarrow> (real \<times> heap) result" where
  "Gate ev h node =
     (case GetInputValuesN ev h node [0, 1] of
        Inl e \<Rightarrow> Inl e
      | Inr (None, h') \<Rightarrow>
          (case GetDefaultOutput h' node of Inl e \<Rightarrow> Inl e | Inr d \<Rightarrow> Inr (d, h'))
      | Inr (Some vals, h') \<Rightarrow> Inr (if vals ! 1 \<noteq> 0 then vals ! 0 else 0, h'))"

definition Sin :: "evaluator \<Rightarrow> heap \<Rightarrow> addr \<Rightarrow> (real \<times> heap) result" where
  "Sin = on_values (transform_reduce sin)"

definition Cos :: "evaluator \<Rightarrow> heap \<Rightarrow> addr \<Rightarrow> (real \<times> heap) result" where
  "Cos = on_values (transform_reduce cos)"

definition Product :: "evaluator \<Rightarrow> heap \<Rightarrow> addr \<Rightarrow> (real \<times> heap) result" where
  "Product = on_values (reduce 1 (*))"

definition Exp :: "evaluator \<Rightarrow> heap \<Rightarrow> addr \<Rightarrow> (real \<times> heap) result" where
  "Exp = on_values (transform_reduce exp)"

definition LessThan :: "evaluator \<Rightarrow> heap \<Rightarrow> addr \<Rightarrow> (real \<times> heap) result" where
  "LessThan = on_values (\<lambda>vals. bool_to_double (is_sorted (<) vals))"

definition GreaterThan :: "evaluator \<Rightarrow> heap \<Rightarrow> addr \<Rightarrow> (real \<times> heap) result" where
  "GreaterThan = on_values (\<lambda>vals. bool_to_double (is_sorted (>) vals))"

definition Max_fn :: "evaluator \<Rightarrow> heap \<Rightarrow> addr \<Rightarrow> (real \<times> heap) result" where
  "Max_fn = on_values_or_default max_element"

definition Min_fn :: "evaluator \<Rightarrow> heap \<Rightarrow> addr \<Rightarrow> (real \<times> heap) result" where
  "Min_fn = on_values_or_default min_element"

definition NegSum :: "evaluator \<Rightarrow> heap \<Rightarrow> addr \<Rightarrow> (real \<times> heap) result" where
  "NegSum ev h node =
     (case Sum ev h node of Inl e \<Rightarrow> Inl e | Inr (s, h') \<Rightarrow> Inr (- s, h'))"

definition Square :: "evaluator \<Rightarrow> heap \<Rightarrow> addr \<Rightarrow> (real \<times> heap) result" where
  "Square = on_values (transform_reduce (\<lambda>val. val * val))"

definition PosClamp :: "evaluator \<Rightarrow> heap \<Rightarrow> addr \<Rightarrow> (real \<times> heap) result" where
  "PosClamp = on_values (transform_reduce (\<lambda>val. max 0 val))"

definition NegClamp :: "evaluator \<Rightarrow> heap \<Rightarrow> addr \<Rightarrow> (real \<times> heap) result" where
  "NegClamp = on_values (transform_reduce (\<lambda>val. min 0 val))"

definition Sqrt :: "evaluator \<Rightarrow> heap \<Rightarrow> addr \<Rightarrow> (real \<times> heap) result" where
  "Sqrt = on_values (transform_reduce (\<lambda>val. sqrt (max 0 val)))"

text \<open>Calling through a function pointer that is not null.\<close>

fun call :: "NodeFunction \<Rightarrow> evaluator \<Rightarrow> heap \<Rightarrow> addr \<Rightarrow> (real \<times> heap) result" where
  "call SumFn = Sum"
| "call AndFn = And"
| "call AnyEqFn = AnyEq"
| "call NotFn = Not_fn"
| "call GateFn = Gate"
| "call SinFn = Sin"
| "call CosFn = Cos"
| "call ProductFn = Product"
| "call ExpFn = Exp"
| "call LessThanFn = LessThan"
| "call GreaterThanFn = GreaterThan"
| "call MaxFn = Max_fn"
| "call MinFn = Min_fn"
| "call NegSumFn = NegSum"
| "call SquareFn = Square"
| "call PosClampFn = PosClamp"
| "call NegClampFn = NegClamp"
| "call SqrtFn = Sqrt"

definition FUNCTION_SET :: "NodeFunction option list" where
  "FUNCTION_SET =
     [None, Some SumFn, Some AndFn, Some AnyEqFn, Some NotFn, Some GateFn, Some SinFn,
      Some CosFn, Some ProductFn, Some ExpFn, Some LessThanFn, Some GreaterThanFn, Some MaxFn,
      Some MinFn, Some NegSumFn, Some SquareFn, Some PosClampFn, Some NegClampFn, Some SqrtFn]"

subsection \<open>Evaluation\<close>

fun GetOutput :: "nat \<Rightarrow> heap \<Rightarrow> addr \<Rightarrow> (real \<times> heap) result" where
  "GetOutput 0 h this = Inl OutOfFuel"
| "GetOutput (Suc fuel) h this =
     (case h this of
        None \<Rightarrow> Inl Undefined
      | Some n \<Rightarrow>
          if cached_output_valid n then Inr (cached_output n, h)
          else
            (case (case function_pointer n of
                     None \<Rightarrow> Inr (default_output n, h)
                   | Some f \<Rightarrow> call f (GetOutput fuel) h this) of
               Inl e \<Rightarrow> Inl e
             | Inr (result, h') \<Rightarrow>
                 (case h' this of
                    None \<Rightarrow> Inl Undefined
                  | Some n' \<Rightarrow>
                      Inr (result,
                           h'(this \<mapsto> n'\<lparr>cached_output := result, cached_output_valid := True\<rparr>)))))"

subsection \<open>Mutation\<close>

definition SetFunctionPointer :: "nat \<Rightarrow> heap \<Rightarrow> addr \<Rightarrow> NodeFunction option \<Rightarrow> heap result" where
  "SetFunctionPointer fuel h this function =
     (case h this of
        None \<Rightarrow> Inl Undefined
      | Some n \<Rightarrow> RecursiveInvalidateCache fuel (h(this \<mapsto> n\<lparr>function_pointer := function\<rparr>)) this)"

definition AddInput :: "nat \<Rightarrow> heap \<Rightarrow> addr \<Rightarrow> addr \<Rightarrow> heap result" where
  "AddInput fuel h this node =
     (case h this of
        None \<Rightarrow> Inl Undefined
      | Some n \<Rightarrow>
          (case AddOutput (h(this \<mapsto> n\<lparr>inputs := inputs n @ [node]\<rparr>)) node this of
             Inl e \<Rightarrow> Inl e
           | Inr h' \<Rightarrow> RecursiveInvalidateCache fuel h' this))"

definition AddInputs :: "nat \<Rightarrow> heap \<Rightarrow> addr \<Rightarrow> addr list \<Rightarrow> heap result" where
  "AddInputs fuel h this nodes =
     (case h this of
        None \<Rightarrow> Inl Undefined
      | Some n \<Rightarrow> RecursiveInvalidateCache fuel (h(this \<mapsto> n\<lparr>inputs := inputs n @ nodes\<rparr>)) this)"

definition SetInputs :: "nat \<Rightarrow> heap \<Rightarrow> addr \<Rightarrow> addr list \<Rightarrow> heap result" where
  "SetInputs fuel h this nodes =
     (case h this of
        None \<Rightarrow> Inl Undefined
      | Some n \<Rightarrow> RecursiveInvalidateCache fuel (h(this \<mapsto> n\<lparr>inputs := nodes\<rparr>)) this)"

definition SetDefaultOutput :: "nat \<Rightarrow> heap \<Rightarrow> addr \<Rightarrow> real \<Rightarrow> heap result" where
  "SetDefaultOutput fuel h this v =
     (case h this of
        None \<Rightarrow> Inl Undefined
      | Some n \<Rightarrow>
          if default_output n \<noteq> v
          then RecursiveInvalidateCache fuel (h(this \<mapsto> n\<lparr>default_output := v\<rparr>)) this
          else Inr h)"

subsection \<open>Edges, footprints and ranks\<close>

text \<open>The two edge relations of a heap: \<open>(a, b)\<close> is an edge when \<open>b\<close> is listed by \<open>a\<close>.\<close>

definition out_edges :: "heap \<Rightarrow> (addr \<times> addr) set" where
  "out_edges h = {(a, b). \<exists>n. h a = Some n \<and> b \<in> set (outputs n)}"

definition in_edges :: "heap \<Rightarrow> (addr \<times> addr) set" where
  "in_edges h = {(a, b). \<exists>n. h a = Some n \<and> b \<in> set (inputs n)}"

text \<open>The heap \<open>h'\<close> is \<open>h\<close> with the validity flag of some nodes cleared.\<close>

definition flags_cleared :: "heap \<Rightarrow> heap \<Rightarrow> bool" where
  "flags_cleared h h' =
     (\<forall>a. case h a of
        None \<Rightarrow> h' a = None
      | Some n \<Rightarrow> h' a = Some n \<or> h' a = Some (n\<lparr>cached_output_valid := False\<rparr>))"

text \<open>
  The heap \<open>h'\<close> is \<open>h\<close> with the cache of some nodes that were not valid filled in:
  the footprint of an evaluation.
\<close>

definition cache_filled :: "heap \<Rightarrow> heap \<Rightarrow> bool" where
  "cache_filled h h' =
     (\<forall>a. case h a of
        None \<Rightarrow> h' a = None
      | Some n \<Rightarrow>
          h' a = Some n \<or>
          (\<not> cached_output_valid n \<and>
           (\<exists>v. h' a = Some (n\<lparr>cached_output := v, cached_output_valid := True\<rparr>))))"

text \<open>An evaluator that only fills caches.\<close>

definition fills_caches :: "evaluator \<Rightarrow> bool" where
  "fills_caches ev = (\<forall>h a r h'. ev h a = Inr (r, h') \<longrightarrow> cache_filled h h')"

text \<open>
  A graph without a cycle, with every listed node alive: each input (each output) of a node
  has a smaller rank than the node.
\<close>

definition inputs_ranked :: "(addr \<Rightarrow> nat) \<Rightarrow> heap \<Rightarrow> bool" where
  "inputs_ranked rank h =
     (\<forall>a n. h a = Some n \<longrightarrow> (\<forall>b\<in>set (inputs n). h b \<noteq> None \<and> rank b < rank a))"

definition outputs_ranked :: "(addr \<Rightarrow> nat) \<Rightarrow> heap \<Rightarrow> bool" where
  "outputs_ranked rank h =
     (\<forall>a n. h a = Some n \<longrightarrow> (\<forall>b\<in>set (outputs n). h b \<noteq> None \<and> rank b < rank a))"

subsection \<open>Scripts and example graphs\<close>

text \<open>Running one call after another; the first error ends the script.\<close>

definition and_then :: "'a result \<Rightarrow> ('a \<Rightarrow> 'b result) \<Rightarrow> 'b result" where
  "and_then m f = (case m of Inl e \<Rightarrow> Inl e | Inr x \<Rightarrow> f x)"

definition output_of :: "(real \<times> heap) result \<Rightarrow> real result" where
  "output_of m = and_then m (\<lambda>(r, h). Inr r)"

definition heap_of :: "(real \<times> heap) result \<Rightarrow> heap result" where
  "heap_of m = and_then m (\<lambda>(r, h). Inr h)"

definition valid_after :: "heap result \<Rightarrow> addr \<Rightarrow> bool result" where
  "valid_after m a = and_then m (\<lambda>h. IsCacheValid h a)"

text \<open>
  The end-to-end scenario: \<open>A = GraphNode(2.)\<close> at address 0, \<open>B = GraphNode(5.)\<close> at
  address 1 and \<open>C = GraphNode(Sum)\<close> at address 2; then \<open>C->AddInput(A)\<close>,
  \<open>C->AddInput(B)\<close>, \<open>C->GetOutput()\<close>, \<open>A->SetDefaultOutput(10.)\<close> and \<open>C->GetOutput()\<close>.
\<close>

definition scenario_nodes :: heap where
  "scenario_nodes =
     Map.empty(0 \<mapsto> GraphNode_default 2, 1 \<mapsto> GraphNode_default 5,
               2 \<mapsto> GraphNode_function (Some SumFn))"

definition scenario_wired :: "heap result" where
  "scenario_wired = and_then (AddInput 1 scenario_nodes 2 0) (\<lambda>h. AddInput 1 h 2 1)"

definition scenario_evaluated :: "(real \<times> heap) result" where
  "scenario_evaluated = and_then scenario_wired (\<lambda>h. GetOutput 2 h 2)"

definition scenario_mutated :: "heap result" where
  "scenario_mutated = and_then (heap_of scenario_evaluated) (\<lambda>h. SetDefaultOutput 2 h 0 10)"

definition scenario_reevaluated :: "(real \<times> heap) result" where
  "scenario_reevaluated = and_then scenario_mutated (\<lambda>h. GetOutput 2 h 2)"

text \<open>The heap of the scenario after the two calls of \<open>AddInput\<close>: no cache is valid.\<close>

definition wired_heap :: heap where
  "wired_heap =
     Map.empty(
       0 \<mapsto> \<lparr>inputs = [], function_pointer = None, default_output = 2, outputs = [2],
              cached_output = 0, cached_output_valid = False\<rparr>,
       1 \<mapsto> \<lparr>inputs = [], function_pointer = None, default_output = 5, outputs = [2],
              cached_output = 0, cached_output_valid = False\<rparr>,
       2 \<mapsto> \<lparr>inputs = [0, 1], function_pointer = Some SumFn, default_output = 0, outputs = [],
              cached_output = 0, cached_output_valid = False\<rparr>)"

text \<open>The heap of the scenario after \<open>C->GetOutput()\<close>: every cache is valid.\<close>

definition evaluated_heap :: heap where
  "evaluated_heap =
     Map.empty(
       0 \<mapsto> \<lparr>inputs = [], function_pointer = None, default_output = 2, outputs = [2],
              cached_output = 2, cached_output_valid = True\<rparr>,
       1 \<mapsto> \<lparr>inputs = [], function_pointer = None, default_output = 5, outputs = [2],
              cached_output = 5, cached_output_valid = True\<rparr>,
       2 \<mapsto> \<lparr>inputs = [0, 1], function_pointer = Some SumFn, default_output = 0, outputs = [],
              cached_output = 7, cached_output_valid = True\<rparr>)"

text \<open>The same scenario wired by \<open>C->AddInputs({A, B})\<close>, and by \<open>C->SetInputs({A, B})\<close>.\<close>

definition batch_wired :: "heap result" where
  "batch_wired = AddInputs 1 scenario_nodes 2 [0, 1]"

definition batch_reevaluated :: "(real \<times> heap) result" where
  "batch_reevaluated =
     and_then (and_then (heap_of (and_then batch_wired (\<lambda>h. GetOutput 2 h 2)))
       (\<lambda>h. SetDefaultOutput 2 h 0 10)) (\<lambda>h. GetOutput 2 h 2)"

definition set_wired :: "heap result" where
  "set_wired = SetInputs 1 scenario_nodes 2 [0, 1]"

definition set_reevaluated :: "(real \<times> heap) result" where
  "set_reevaluated =
     and_then (and_then (heap_of (and_then set_wired (\<lambda>h. GetOutput 2 h 2)))
       (\<lambda>h. SetDefaultOutput 2 h 0 10)) (\<lambda>h. GetOutput 2 h 2)"

text \<open>
  A graph with an output edge left over: \<open>X = GraphNode(Sum)\<close> at address 0 and
  \<open>Y = GraphNode(5.)\<close> at address 1; then \<open>Y->AddInput(X)\<close>, \<open>Y->SetInputs({})\<close>,
  \<open>X->SetInputs({Y})\<close> and \<open>X->GetOutput()\<close>. Now \<open>Y\<close> is the only input of \<open>X\<close> and has no
  input itself, and \<open>Y\<close> is still listed as an output of \<open>X\<close>. The last step is
  \<open>X->SetDefaultOutput(7.)\<close>.
\<close>

definition stale_nodes :: heap where
  "stale_nodes = Map.empty(0 \<mapsto> GraphNode_function (Some SumFn), 1 \<mapsto> GraphNode_default 5)"

definition stale_wired :: "heap result" where
  "stale_wired =
     and_then (and_then (AddInput 1 stale_nodes 1 0) (\<lambda>h. SetInputs 1 h 1 []))
       (\<lambda>h. SetInputs 2 h 0 [1])"

definition stale_evaluated :: "(real \<times> heap) result" where
  "stale_evaluated = and_then stale_wired (\<lambda>h. GetOutput 2 h 0)"

definition stale_heap :: heap where
  "stale_heap =
     Map.empty(
       0 \<mapsto> \<lparr>inputs = [1], function_pointer = Some SumFn, default_output = 0, outputs = [1],
              cached_output = 5, cached_output_valid = True\<rparr>,
       1 \<mapsto> \<lparr>inputs = [], function_pointer = None, default_output = 5, outputs = [],
              cached_output = 5, cached_output_valid = True\<rparr>)"

definition stale_mutated :: "heap result" where
  "stale_mutated = SetDefaultOutput 2 stale_heap 0 7"

text \<open>
  A constant node at address 0 and, at address 1, a node with a function, a default output
  and the given inputs.
\<close>

definition small_graph :: "real \<Rightarrow> NodeFunction \<Rightarrow> real \<Rightarrow> addr list \<Rightarrow> heap" where
  "small_graph c f d ins =
     Map.empty(0 \<mapsto> GraphNode_default c,
               1 \<mapsto> (GraphNode_function (Some f))\<lparr>default_output := d, inputs := ins\<rparr>)"

text \<open>
  Constant nodes with the given values at the addresses \<open>0, 1, ...\<close>, and after them one node
  with the function \<open>f\<close> that has all of them as inputs, in order.
\<close>

definition constants_graph :: "real list \<Rightarrow> NodeFunction \<Rightarrow> heap" where
  "constants_graph vals f =
     (\<lambda>a. if a < length vals then Some ((GraphNode_default (vals ! a))\<lparr>outputs := [length vals]\<rparr>)
          else if a = length vals
          then Some ((GraphNode_function (Some f))\<lparr>inputs := [0..<length vals]\<rparr>)
          else None)"

section \<open>Properties\<close>

subsection \<open>Double arithmetic is exact on small integers\<close>

lemma round_half_even_int: "round_half_even (of_int j) = j"
  by (simp add: round_half_even_def)

lemma to_double_on_grid:
  assumes "x / 2 powr of_int (max \<lfloor>log 2 \<bar>x\<bar>\<rfloor> (- 1022) - 52) = of_int j"
    and "\<bar>x\<bar> < 2 powr 1024"
  shows "to_double x = Some x"
proof (cases "x = 0")
  case True
  then show ?thesis by (simp add: to_double_def)
next
  case False
  let ?u = "2 powr of_int (max \<lfloor>log 2 \<bar>x\<bar>\<rfloor> (- 1022) - 52) :: real"
  have u: "?u > 0" by simp
  have "x / ?u * ?u = x" using u by simp
  then have "of_int (round_half_even (x / ?u)) * ?u = x"
    by (simp only: assms(1) round_half_even_int)
  with False assms(2) show ?thesis by (simp add: to_double_def Let_def)
qed

lemma to_double_int:
  assumes "\<bar>k\<bar> \<le> 2 ^ 53"
  shows "to_double (of_int k) = Some (of_int k)"
proof (cases "k = 0")
  case True
  then show ?thesis by (simp add: to_double_def)
next
  case False
  let ?x = "of_int k :: real"
  let ?e = "\<lfloor>log 2 \<bar>?x\<bar>\<rfloor>"
  have pos: "0 < \<bar>?x\<bar>" using False by simp
  have one: "1 \<le> \<bar>?x\<bar>" using False by (simp flip: of_int_abs)
  have top: "\<bar>?x\<bar> \<le> 2 ^ 53"
  proof -
    have "\<bar>?x\<bar> = of_int \<bar>k\<bar>" by simp
    also have "\<dots> \<le> of_int (2 ^ 53)" using assms by (simp only: of_int_le_iff)
    finally show ?thesis by simp
  qed
  have bounds: "2 powr of_int ?e \<le> \<bar>?x\<bar>" "\<bar>?x\<bar> < 2 powr of_int (?e + 1)"
    using floor_log_eq_powr_iff[of "\<bar>?x\<bar>" 2 ?e] pos by simp_all
  have e0: "0 \<le> ?e"
  proof -
    have "0 \<le> log 2 \<bar>?x\<bar>" using one by simp
    then show ?thesis by simp
  qed
  have e53: "?e \<le> 53"
  proof -
    have "log 2 \<bar>?x\<bar> \<le> log 2 (2 ^ 53)" using top pos by (subst log_le_cancel_iff) simp_all
    also have "log 2 (2 ^ 53) = (53::real)" by (subst log_nat_power) simp_all
    finally have "\<lfloor>log 2 \<bar>?x\<bar>\<rfloor> \<le> \<lfloor>53::real\<rfloor>" by (rule floor_mono)
    then show ?thesis by simp
  qed
  have big: "\<bar>?x\<bar> < 2 powr 1024"
  proof -
    have "(2::real) ^ 53 < 2 ^ 1024" by (rule power_strict_increasing) simp_all
    with top show ?thesis by simp
  qed
  have m: "max ?e (- 1022) = ?e" using e0 by simp
  have "\<exists>j. ?x / 2 powr of_int (?e - 52) = of_int j"
  proof (cases "?e \<le> 52")
    case True
    then obtain d :: nat where d: "52 - ?e = int d" using nonneg_int_cases[of "52 - ?e"] by auto
    have "?x / 2 powr of_int (?e - 52) = ?x * 2 powr of_int (52 - ?e)"
      by (simp add: powr_minus field_simps flip: powr_add)
    also have "\<dots> = ?x * 2 ^ d" by (simp add: d powr_realpow)
    also have "\<dots> = of_int (k * 2 ^ d)" by simp
    finally show ?thesis by blast
  next
    case False
    with e53 have e: "?e = 53" by linarith
    with bounds(1) top have "\<bar>?x\<bar> = 2 ^ 53" by simp
    then have "\<bar>k\<bar> = 2 ^ 53"
      by (metis of_int_abs of_int_eq_iff of_int_numeral of_int_power)
    then have "even k" by (metis dvd_abs_iff even_numeral even_power zero_less_numeral)
    then obtain j where j: "k = 2 * j" by (elim evenE)
    have "2 powr of_int (?e - 52) = (2::real)" by (simp add: e)
    then have "?x / 2 powr of_int (?e - 52) = ?x / 2" by (simp only:)
    also have "\<dots> = of_int j" by (simp add: j)
    finally show ?thesis by blast
  qed
  then obtain j where "?x / 2 powr of_int (max ?e (- 1022) - 52) = of_int j" using m by auto
  from to_double_on_grid[OF this big] show ?thesis .
qed



















lemma rounded_of_int: "\<bar>k\<bar> \<le> 2 ^ 53 \<Longrightarrow> rounded (of_int k) = of_int k"
  by (simp add: rounded_def to_double_int)


lemma rounded_0: "rounded 0 = 0"
  using rounded_of_int[of 0] by simp

lemma rounded_1: "rounded 1 = 1"
  using rounded_of_int[of 1] by simp

lemma rounded_numeral: "(numeral n :: int) \<le> 2 ^ 53 \<Longrightarrow> rounded (numeral n) = numeral n"
  using rounded_of_int[of "numeral n"] by simp

lemma rounded_neg_numeral:
  "(numeral n :: int) \<le> 2 ^ 53 \<Longrightarrow> rounded (- numeral n) = - numeral n"
  using rounded_of_int[of "- numeral n"] by simp

lemmas rounded_simps = rounded_0 rounded_1 rounded_numeral rounded_neg_numeral









lemmas node_defs = GraphNode_default_def GraphNode_function_def GraphNode_new_def

lemmas script_defs = and_then_def output_of_def heap_of_def valid_after_def IsCacheValid_def
  AddInput_def AddInputs_def SetInputs_def SetDefaultOutput_def SetFunctionPointer_def
  AddOutput_def GetInputValues_def on_values_def reduce_def rounded_simps eval_nat_numeral

subsection \<open>Invalidation clears the flags of the dependents and nothing else\<close>

lemma flags_cleared_refl: "flags_cleared h h"
  by (simp add: flags_cleared_def split: option.splits)

lemma flags_cleared_trans:
  assumes "flags_cleared h1 h2" and "flags_cleared h2 h3"
  shows "flags_cleared h1 h3"
  unfolding flags_cleared_def
proof
  fix a
  from assms have 1: "case h1 a of None \<Rightarrow> h2 a = None
      | Some n \<Rightarrow> h2 a = Some n \<or> h2 a = Some (n\<lparr>cached_output_valid := False\<rparr>)"
    and 2: "case h2 a of None \<Rightarrow> h3 a = None
      | Some n \<Rightarrow> h3 a = Some n \<or> h3 a = Some (n\<lparr>cached_output_valid := False\<rparr>)"
    by (simp_all add: flags_cleared_def)
  show "case h1 a of None \<Rightarrow> h3 a = None
      | Some n \<Rightarrow> h3 a = Some n \<or> h3 a = Some (n\<lparr>cached_output_valid := False\<rparr>)"
    using 1 2 by (cases "h1 a") auto
qed

lemma flags_cleared_upd:
  "h a = Some n \<Longrightarrow> flags_cleared h (h(a \<mapsto> n\<lparr>cached_output_valid := False\<rparr>))"
  by (simp add: flags_cleared_def split: option.splits)

lemma flags_cleared_at:
  assumes "flags_cleared h h'"
  shows "(h a = None \<longrightarrow> h' a = None) \<and>
         (\<forall>n. h a = Some n \<longrightarrow> h' a = Some n \<or> h' a = Some (n\<lparr>cached_output_valid := False\<rparr>))"
proof -
  from assms have "case h a of None \<Rightarrow> h' a = None
      | Some n \<Rightarrow> h' a = Some n \<or> h' a = Some (n\<lparr>cached_output_valid := False\<rparr>)"
    by (simp add: flags_cleared_def)
  then show ?thesis by (cases "h a") auto
qed

lemma flags_cleared_out_edges:
  assumes "flags_cleared h h'"
  shows "out_edges h' = out_edges h"
proof -
  have "(\<exists>n. h' a = Some n \<and> b \<in> set (outputs n)) \<longleftrightarrow> (\<exists>n. h a = Some n \<and> b \<in> set (outputs n))"
    for a b
    using flags_cleared_at[OF assms, of a] by (cases "h a") auto
  then show ?thesis by (simp add: out_edges_def)
qed

lemma flags_cleared_in_edges:
  assumes "flags_cleared h h'"
  shows "in_edges h' = in_edges h"
proof -
  have "(\<exists>n. h' a = Some n \<and> b \<in> set (inputs n)) \<longleftrightarrow> (\<exists>n. h a = Some n \<and> b \<in> set (inputs n))"
    for a b
    using flags_cleared_at[OF assms, of a] by (cases "h a") auto
  then show ?thesis by (simp add: in_edges_def)
qed

lemma flags_cleared_invalid:
  assumes "flags_cleared h h'" and "IsCacheValid h b = Inr False"
  shows "IsCacheValid h' b = Inr False"
  using flags_cleared_at[OF assms(1), of b] assms(2)
  by (cases "h b") (auto simp: IsCacheValid_def)

lemma flags_cleared_cached_output:
  assumes "flags_cleared h h'"
  shows "map_option cached_output (h' b) = map_option cached_output (h b)"
  using flags_cleared_at[OF assms, of b] by (cases "h b") auto

lemma for_each_output_inv:
  assumes f: "\<forall>h x h'. f h x = Inr h' \<longrightarrow>
            flags_cleared h h' \<and> (\<forall>b. (x, b) \<in> (out_edges h)\<^sup>* \<longrightarrow> IsCacheValid h' b = Inr False)
            \<and> (\<forall>b. (x, b) \<notin> (out_edges h)\<^sup>* \<longrightarrow> h' b = h b)"
    and run: "for_each_output f xs h = Inr h'"
  shows "flags_cleared h h' \<and>
         (\<forall>x\<in>set xs. \<forall>b. (x, b) \<in> (out_edges h)\<^sup>* \<longrightarrow> IsCacheValid h' b = Inr False) \<and>
         (\<forall>b. (\<forall>x\<in>set xs. (x, b) \<notin> (out_edges h)\<^sup>*) \<longrightarrow> h' b = h b)"
  using run
proof (induction xs arbitrary: h)
  case Nil
  then show ?case by (simp add: flags_cleared_refl)
next
  case (Cons x xs)
  from Cons.prems obtain h1 where h1: "f h x = Inr h1" and rest: "for_each_output f xs h1 = Inr h'"
    by (auto split: sum.splits)
  have fx: "flags_cleared h h1" "\<forall>b. (x, b) \<in> (out_edges h)\<^sup>* \<longrightarrow> IsCacheValid h1 b = Inr False"
    "\<forall>b. (x, b) \<notin> (out_edges h)\<^sup>* \<longrightarrow> h1 b = h b"
    using f h1 by blast+
  have e: "out_edges h1 = out_edges h" using fx(1) by (rule flags_cleared_out_edges)
  have ih: "flags_cleared h1 h' \<and>
         (\<forall>x\<in>set xs. \<forall>b. (x, b) \<in> (out_edges h1)\<^sup>* \<longrightarrow> IsCacheValid h' b = Inr False) \<and>
         (\<forall>b. (\<forall>x\<in>set xs. (x, b) \<notin> (out_edges h1)\<^sup>*) \<longrightarrow> h' b = h1 b)"
    using Cons.IH[OF rest] .
  show ?case
  proof (intro conjI ballI allI impI)
    show "flags_cleared h h'" using fx(1) ih flags_cleared_trans by blast
  next
    fix y b assume "y \<in> set (x # xs)" and r: "(y, b) \<in> (out_edges h)\<^sup>*"
    then consider "y = x" | "y \<in> set xs" by auto
    then show "IsCacheValid h' b = Inr False"
    proof cases
      case 1
      with r fx(2) have "IsCacheValid h1 b = Inr False" by simp
      with ih show ?thesis using flags_cleared_invalid by blast
    next
      case 2
      with r ih e show ?thesis by simp
    qed
  next
    fix b assume "\<forall>y\<in>set (x # xs). (y, b) \<notin> (out_edges h)\<^sup>*"
    then show "h' b = h b" using fx(3) ih e by simp
  qed
qed

lemma RecursiveInvalidateCache_inv:
  "RecursiveInvalidateCache fuel h a = Inr h' \<Longrightarrow>
     flags_cleared h h' \<and> (\<forall>b. (a, b) \<in> (out_edges h)\<^sup>* \<longrightarrow> IsCacheValid h' b = Inr False)
            \<and> (\<forall>b. (a, b) \<notin> (out_edges h)\<^sup>* \<longrightarrow> h' b = h b)"
proof (induction fuel arbitrary: h a h')
  case 0
  then show ?case by simp
next
  case (Suc fuel)
  from Suc.prems obtain n where n: "h a = Some n"
    and run: "for_each_output (RecursiveInvalidateCache fuel) (outputs n)
            (h(a \<mapsto> n\<lparr>cached_output_valid := False\<rparr>)) = Inr h'"
    by (auto split: option.splits)
  let ?h1 = "h(a \<mapsto> n\<lparr>cached_output_valid := False\<rparr>)"
  have c1: "flags_cleared h ?h1" using n by (rule flags_cleared_upd)
  then have e: "out_edges ?h1 = out_edges h" by (rule flags_cleared_out_edges)
  have loop: "flags_cleared ?h1 h' \<and>
         (\<forall>x\<in>set (outputs n). \<forall>b. (x, b) \<in> (out_edges ?h1)\<^sup>* \<longrightarrow> IsCacheValid h' b = Inr False) \<and>
         (\<forall>b. (\<forall>x\<in>set (outputs n). (x, b) \<notin> (out_edges ?h1)\<^sup>*) \<longrightarrow> h' b = ?h1 b)"
  proof (rule for_each_output_inv[OF _ run])
    show "\<forall>h x h'. RecursiveInvalidateCache fuel h x = Inr h' \<longrightarrow>
            flags_cleared h h' \<and> (\<forall>b. (x, b) \<in> (out_edges h)\<^sup>* \<longrightarrow> IsCacheValid h' b = Inr False)
            \<and> (\<forall>b. (x, b) \<notin> (out_edges h)\<^sup>* \<longrightarrow> h' b = h b)"
      using Suc.IH by blast
  qed
  have step: "(a, x) \<in> out_edges h \<longleftrightarrow> x \<in> set (outputs n)" for x
    using n by (simp add: out_edges_def)
  show ?case
  proof (intro conjI allI impI)
    show "flags_cleared h h'" using c1 loop flags_cleared_trans by blast
  next
    fix b assume "(a, b) \<in> (out_edges h)\<^sup>*"
    then show "IsCacheValid h' b = Inr False"
    proof (cases rule: converse_rtranclE)
      case base
      then have "IsCacheValid ?h1 b = Inr False" by (simp add: IsCacheValid_def)
      with loop show ?thesis using flags_cleared_invalid by blast
    next
      case (step x)
      then have "x \<in> set (outputs n)" using n by (simp add: out_edges_def)
      with step loop e show ?thesis by simp
    qed
  next
    fix b assume nr: "(a, b) \<notin> (out_edges h)\<^sup>*"
    then have "b \<noteq> a" by auto
    moreover have "\<forall>x\<in>set (outputs n). (x, b) \<notin> (out_edges h)\<^sup>*"
      using nr step by (meson converse_rtrancl_into_rtrancl)
    ultimately show "h' b = h b" using loop e by simp
  qed
qed

lemma out_edges_upd:
  assumes "h a = Some n" and "outputs n' = outputs n"
  shows "out_edges (h(a \<mapsto> n')) = out_edges h"
  using assms by (auto simp: out_edges_def split: if_splits)

lemma out_edges_AddOutput:
  assumes "AddOutput h node this = Inr h'"
  shows "out_edges h' = insert (node, this) (out_edges h)"
  using assms by (auto simp: AddOutput_def out_edges_def split: option.splits if_splits)

lemma invalidated_reachable:
  assumes run: "RecursiveInvalidateCache fuel h1 x = Inr h'"
    and sub: "out_edges h \<subseteq> out_edges h1"
    and reach: "(x, y) \<in> (out_edges h)\<^sup>* \<or> (x, y) \<in> (out_edges h')\<^sup>*"
  shows "IsCacheValid h' y = Inr False"
proof -
  from RecursiveInvalidateCache_inv[OF run]
  have c: "flags_cleared h1 h'"
    and inv: "\<forall>b. (x, b) \<in> (out_edges h1)\<^sup>* \<longrightarrow> IsCacheValid h' b = Inr False"
    by simp_all
  have "out_edges h' = out_edges h1" using c by (rule flags_cleared_out_edges)
  with reach sub have "(x, y) \<in> (out_edges h1)\<^sup>*"
    using rtrancl_mono[OF sub] by auto
  with inv show ?thesis by simp
qed

subsection \<open>Evaluation fills caches and changes nothing else\<close>

lemma cache_filled_at:
  assumes "cache_filled h h'"
  shows "(h a = None \<longrightarrow> h' a = None) \<and>
         (\<forall>n. h a = Some n \<longrightarrow> h' a = Some n \<or>
            (\<not> cached_output_valid n \<and>
             (\<exists>v. h' a = Some (n\<lparr>cached_output := v, cached_output_valid := True\<rparr>))))"
proof -
  from assms have "case h a of
        None \<Rightarrow> h' a = None
      | Some n \<Rightarrow>
          h' a = Some n \<or>
          (\<not> cached_output_valid n \<and>
           (\<exists>v. h' a = Some (n\<lparr>cached_output := v, cached_output_valid := True\<rparr>)))"
    by (simp add: cache_filled_def)
  then show ?thesis by (cases "h a") auto
qed

lemma cache_filled_refl: "cache_filled h h"
  by (simp add: cache_filled_def split: option.splits)

lemma cache_filled_trans:
  assumes "cache_filled h1 h2" and "cache_filled h2 h3"
  shows "cache_filled h1 h3"
  unfolding cache_filled_def
proof
  fix a
  show "case h1 a of
        None \<Rightarrow> h3 a = None
      | Some n \<Rightarrow>
          h3 a = Some n \<or>
          (\<not> cached_output_valid n \<and>
           (\<exists>v. h3 a = Some (n\<lparr>cached_output := v, cached_output_valid := True\<rparr>)))"
    using cache_filled_at[OF assms(1), of a] cache_filled_at[OF assms(2), of a]
    by (cases "h1 a") auto
qed

lemma cache_filled_inputs:
  assumes "cache_filled h h'" and "h a = Some n"
  shows "\<exists>n'. h' a = Some n' \<and> inputs n' = inputs n \<and> default_output n' = default_output n
           \<and> function_pointer n' = function_pointer n \<and> outputs n' = outputs n"
  using cache_filled_at[OF assms(1), of a] assms(2) by auto

lemma cache_filled_valid:
  assumes "cache_filled h h'" and "h a = Some n" and "cached_output_valid n"
  shows "h' a = Some n"
  using cache_filled_at[OF assms(1), of a] assms(2,3) by auto

lemma transform_outputs_cache_filled:
  assumes "fills_caches ev" and "transform_outputs ev h xs = Inr (vs, h')"
  shows "cache_filled h h'"
  using assms(2)
proof (induction xs arbitrary: h vs)
  case Nil
  then show ?case by (simp add: cache_filled_refl)
next
  case (Cons x xs)
  from Cons.prems obtain v h1 ws where 1: "ev h x = Inr (v, h1)"
    and 2: "transform_outputs ev h1 xs = Inr (ws, h')"
    by (auto split: sum.splits prod.splits)
  from 1 assms(1) have "cache_filled h h1" by (auto simp: fills_caches_def)
  moreover from 2 have "cache_filled h1 h'" by (rule Cons.IH)
  ultimately show ?case by (rule cache_filled_trans)
qed

lemma transform_at_cache_filled:
  assumes "fills_caches ev" and "transform_at ev h this is = Inr (vs, h')"
  shows "cache_filled h h'"
  using assms(2)
proof (induction "is" arbitrary: h vs)
  case Nil
  then show ?case by (simp add: cache_filled_refl)
next
  case (Cons i "is")
  from Cons.prems obtain n v h1 ws where "h this = Some n" and 1: "ev h (inputs n ! i) = Inr (v, h1)"
    and 2: "transform_at ev h1 this is = Inr (ws, h')"
    by (auto split: sum.splits prod.splits option.splits if_splits)
  from 1 assms(1) have "cache_filled h h1" by (auto simp: fills_caches_def)
  moreover from 2 have "cache_filled h1 h'" by (rule Cons.IH)
  ultimately show ?case by (rule cache_filled_trans)
qed

lemma GetInputValues_cache_filled:
  assumes "fills_caches ev" and "GetInputValues ev h this = Inr (vs, h')"
  shows "cache_filled h h'"
  using assms(2) transform_outputs_cache_filled[OF assms(1)]
  by (auto simp: GetInputValues_def split: option.splits)

lemma GetInputValuesN_cache_filled:
  assumes "fills_caches ev" and "GetInputValuesN ev h this is = Inr (r, h')"
  shows "cache_filled h h'"
proof -
  from assms(2) consider "h' = h" | vs where "transform_at ev h this is = Inr (vs, h')"
    by (auto simp: GetInputValuesN_def Let_def simp del: transform_at.simps
        split: option.splits list.splits if_splits sum.splits prod.splits)
  then show ?thesis
    using transform_at_cache_filled[OF assms(1)] by cases (auto simp: cache_filled_refl)
qed

lemma on_values_cache_filled:
  assumes "fills_caches ev" and "on_values g ev h this = Inr (r, h')"
  shows "cache_filled h h'"
  using assms(2) GetInputValues_cache_filled[OF assms(1)]
  by (auto simp: on_values_def split: sum.splits prod.splits)

lemma on_values_or_default_cache_filled:
  assumes "fills_caches ev" and "on_values_or_default g ev h this = Inr (r, h')"
  shows "cache_filled h h'"
  using assms(2) GetInputValues_cache_filled[OF assms(1)]
  by (auto simp: on_values_or_default_def split: sum.splits prod.splits if_splits)

lemma call_cache_filled:
  assumes "fills_caches ev" and "call f ev h this = Inr (r, h')"
  shows "cache_filled h h'"
proof (cases f)
  case NotFn
  with assms(2) show ?thesis using GetInputValuesN_cache_filled[OF assms(1)]
    by (auto simp: Not_fn_def split: sum.splits prod.splits option.splits)
next
  case GateFn
  with assms(2) show ?thesis using GetInputValuesN_cache_filled[OF assms(1)]
    by (auto simp: Gate_def split: sum.splits prod.splits option.splits)
next
  case NegSumFn
  with assms(2) show ?thesis using on_values_cache_filled[OF assms(1)]
    by (auto simp: NegSum_def Sum_def split: sum.splits prod.splits)
qed (use assms(2) on_values_cache_filled[OF assms(1)] on_values_or_default_cache_filled[OF assms(1)]
     in \<open>auto simp: Sum_def And_def AnyEq_def Sin_def Cos_def Product_def Exp_def LessThan_def
       GreaterThan_def Max_fn_def Min_fn_def Square_def PosClamp_def NegClamp_def Sqrt_def\<close>)

lemma GetOutput_effect:
  "GetOutput fuel h this = Inr (r, h') \<Longrightarrow>
     cache_filled h h' \<and>
     (\<exists>n'. h' this = Some n' \<and> cached_output_valid n' \<and> cached_output n' = r)"
proof (induction fuel arbitrary: h this r h')
  case 0
  then show ?case by simp
next
  case (Suc fuel)
  have ev: "fills_caches (GetOutput fuel)"
    using Suc.IH by (auto simp: fills_caches_def)
  from Suc.prems obtain n where n: "h this = Some n"
    by (auto split: option.splits)
  show ?case
  proof (cases "cached_output_valid n")
    case True
    with Suc.prems n show ?thesis by (auto simp: cache_filled_refl)
  next
    case False
    from Suc.prems n False obtain h1 n1 where
      comp: "(case function_pointer n of None \<Rightarrow> Inr (default_output n, h)
              | Some f \<Rightarrow> call f (GetOutput fuel) h this) = Inr (r, h1)"
      and n1: "h1 this = Some n1"
      and h': "h' = h1(this \<mapsto> n1\<lparr>cached_output := r, cached_output_valid := True\<rparr>)"
      by (auto split: sum.splits prod.splits option.splits)
    have c1: "cache_filled h h1"
      using comp call_cache_filled[OF ev] by (auto simp: cache_filled_refl split: option.splits)
    have store: "n1\<lparr>cached_output := r, cached_output_valid := True\<rparr> =
                 n\<lparr>cached_output := r, cached_output_valid := True\<rparr>"
      using cache_filled_at[OF c1, of this] n n1 by auto
    have "cache_filled h h'"
      unfolding cache_filled_def
    proof
      fix a
      show "case h a of
        None \<Rightarrow> h' a = None
      | Some n \<Rightarrow>
          h' a = Some n \<or>
          (\<not> cached_output_valid n \<and>
           (\<exists>v. h' a = Some (n\<lparr>cached_output := v, cached_output_valid := True\<rparr>)))"
      proof (cases "a = this")
        case True
        then show ?thesis using n False store by (auto simp: h')
      next
        case False
        then show ?thesis using cache_filled_at[OF c1, of a] by (cases "h a") (auto simp: h')
      qed
    qed
    moreover have "\<exists>n'. h' this = Some n' \<and> cached_output_valid n' \<and> cached_output n' = r"
      by (simp add: h')
    ultimately show ?thesis by blast
  qed
qed

lemma GetOutput_fills_caches: "fills_caches (GetOutput fuel)"
  using GetOutput_effect by (auto simp: fills_caches_def)

lemma transform_outputs_values:
  assumes "transform_outputs (GetOutput fuel) h xs = Inr (vs, h')"
  shows "length vs = length xs \<and>
         (\<forall>k<length xs. \<exists>m. h' (xs ! k) = Some m \<and> cached_output_valid m \<and> cached_output m = vs ! k)"
  using assms
proof (induction xs arbitrary: h vs)
  case Nil
  then show ?case by simp
next
  case (Cons x xs)
  from Cons.prems obtain v h1 ws where 1: "GetOutput fuel h x = Inr (v, h1)"
    and 2: "transform_outputs (GetOutput fuel) h1 xs = Inr (ws, h')" and vs: "vs = v # ws"
    by (auto split: sum.splits prod.splits)
  from GetOutput_effect[OF 1] obtain m where m: "h1 x = Some m" "cached_output_valid m"
    "cached_output m = v" by blast
  have "cache_filled h1 h'"
    using transform_outputs_cache_filled[OF GetOutput_fills_caches 2] .
  from cache_filled_valid[where h=h1, OF this m(1,2)] have x: "h' x = Some m" .
  from Cons.IH[OF 2] have ih: "length ws = length xs"
    "\<forall>k<length xs. \<exists>m. h' (xs ! k) = Some m \<and> cached_output_valid m \<and> cached_output m = ws ! k"
    by simp_all
  show ?case
  proof (intro conjI allI impI)
    show "length vs = length (x # xs)" using ih(1) vs by simp
  next
    fix k assume "k < length (x # xs)"
    then show "\<exists>m. h' ((x # xs) ! k) = Some m \<and> cached_output_valid m \<and> cached_output m = vs ! k"
      using x m ih(2) vs by (cases k) auto
  qed
qed

subsection \<open>Evaluation returns on a graph without a cycle of inputs\<close>

lemma cache_filled_live:
  assumes "cache_filled h h'"
  shows "h' a \<noteq> None \<longleftrightarrow> h a \<noteq> None"
  using cache_filled_at[OF assms, of a] by (cases "h a") auto

lemma cache_filled_inputs_back:
  assumes "cache_filled h h'" and "h' a = Some n'"
  shows "\<exists>n. h a = Some n \<and> inputs n = inputs n'"
  using cache_filled_at[OF assms(1), of a] assms(2) by (cases "h a") auto

lemma cache_filled_inputs_ranked:
  assumes c: "cache_filled h h'" and r: "inputs_ranked rank h"
  shows "inputs_ranked rank h'"
  unfolding inputs_ranked_def
proof (intro allI impI ballI)
  fix a n' b assume "h' a = Some n'" and b: "b \<in> set (inputs n')"
  then obtain n where "h a = Some n" and "inputs n = inputs n'"
    using cache_filled_inputs_back[OF c] by blast
  with r b have "h b \<noteq> None \<and> rank b < rank a" by (auto simp: inputs_ranked_def)
  then show "h' b \<noteq> None \<and> rank b < rank a" using cache_filled_live[OF c] by simp
qed

lemma transform_outputs_returns:
  assumes ev: "fills_caches ev"
    and ret: "\<forall>h1 b. cache_filled h h1 \<longrightarrow> b \<in> set xs \<longrightarrow> (\<exists>v h2. ev h1 b = Inr (v, h2))"
  shows "\<exists>vs h'. transform_outputs ev h xs = Inr (vs, h')"
  using ret
proof (induction xs arbitrary: h)
  case Nil
  then show ?case by simp
next
  case (Cons x xs)
  from Cons.prems obtain v h1 where 1: "ev h x = Inr (v, h1)"
    using cache_filled_refl by fastforce
  with ev have c: "cache_filled h h1" by (auto simp: fills_caches_def)
  have "\<forall>h2 b. cache_filled h1 h2 \<longrightarrow> b \<in> set xs \<longrightarrow> (\<exists>v h3. ev h2 b = Inr (v, h3))"
    using Cons.prems cache_filled_trans[OF c] by simp
  from Cons.IH[OF this] obtain vs h' where "transform_outputs ev h1 xs = Inr (vs, h')" by blast
  with 1 show ?case by simp
qed

lemma transform_at_in_range:
  assumes ev: "fills_caches ev" and n: "h this = Some n"
    and range: "\<forall>i\<in>set indices. i < length (inputs n)"
  shows "transform_at ev h this indices = transform_outputs ev h (map ((!) (inputs n)) indices)"
  using n range
proof (induction indices arbitrary: h n)
  case Nil
  then show ?case by simp
next
  case (Cons i indices)
  show ?case
  proof (cases "ev h (inputs n ! i)")
    case (Inl e)
    with Cons.prems show ?thesis by simp
  next
    case (Inr p)
    obtain v h1 where p: "p = (v, h1)" by (cases p)
    with Inr ev have "cache_filled h h1" by (auto simp: fills_caches_def)
    from cache_filled_inputs[where h=h, OF this Cons.prems(1)] obtain n1 where
      n1: "h1 this = Some n1" and same: "inputs n1 = inputs n" by blast
    have "transform_at ev h1 this indices = transform_outputs ev h1 (map ((!) (inputs n1)) indices)"
      using Cons.IH[of h1 n1, OF n1] Cons.prems(2) same by simp
    with Inr p Cons.prems same show ?thesis by simp
  qed
qed

lemma foldl_max_ge: "(L::nat) \<le> foldl max a xs \<longleftrightarrow> L \<le> a \<or> (\<exists>x\<in>set xs. L \<le> x)"
  by (induction xs arbitrary: a) (auto simp: le_max_iff_disj)

lemma GetInputValuesN_out_of_range:
  assumes "h this = Some n" and "\<exists>i\<in>set indices. length (inputs n) \<le> i"
  shows "GetInputValuesN ev h this indices = Inr (None, h)"
proof (cases indices)
  case Nil
  with assms show ?thesis by simp
next
  case (Cons i "is")
  with assms(2) have "length (inputs n) \<le> foldl max i is" by (auto simp: foldl_max_ge)
  with assms(1) Cons show ?thesis by (simp add: GetInputValuesN_def)
qed

lemma GetInputValuesN_in_range:
  assumes ev: "fills_caches ev" and n: "h this = Some n" and ne: "indices \<noteq> []"
    and range: "\<forall>i\<in>set indices. i < length (inputs n)"
  shows "GetInputValuesN ev h this indices =
           and_then (transform_outputs ev h (map ((!) (inputs n)) indices))
             (\<lambda>(vals, h'). Inr (Some vals, h'))"
proof -
  from ne obtain i "is" where c: "indices = i # is" by (cases indices) auto
  with range have "\<not> length (inputs n) \<le> foldl max i is" by (auto simp: foldl_max_ge)
  moreover note transform_at_in_range[where h=h, OF ev n range]
  ultimately show ?thesis using n c
    by (simp add: GetInputValuesN_def and_then_def del: transform_at.simps
        split: sum.splits prod.splits)
qed

lemma GetInputValues_returns:
  assumes ev: "fills_caches ev" and n: "h this = Some n"
    and ret: "\<forall>h1 b. cache_filled h h1 \<longrightarrow> b \<in> set (inputs n) \<longrightarrow> (\<exists>v h2. ev h1 b = Inr (v, h2))"
  shows "\<exists>vs h'. GetInputValues ev h this = Inr (vs, h') \<and> cache_filled h h'"
proof -
  from transform_outputs_returns[where h=h, OF ev ret] obtain vs h' where
    "transform_outputs ev h (inputs n) = Inr (vs, h')" by blast
  with n have "GetInputValues ev h this = Inr (vs, h')" by (simp add: GetInputValues_def)
  with GetInputValues_cache_filled[OF ev] show ?thesis by blast
qed

lemma GetInputValuesN_returns:
  assumes ev: "fills_caches ev" and n: "h this = Some n" and ne: "indices \<noteq> []"
    and ret: "\<forall>h1 b. cache_filled h h1 \<longrightarrow> b \<in> set (inputs n) \<longrightarrow> (\<exists>v h2. ev h1 b = Inr (v, h2))"
  shows "\<exists>r h'. GetInputValuesN ev h this indices = Inr (r, h') \<and> cache_filled h h' \<and>
           (r = None \<longleftrightarrow> (\<exists>i\<in>set indices. length (inputs n) \<le> i))"
proof (cases "\<exists>i\<in>set indices. length (inputs n) \<le> i")
  case True
  with GetInputValuesN_out_of_range[where h=h, OF n] show ?thesis by (auto simp: cache_filled_refl)
next
  case False
  then have range: "\<forall>i\<in>set indices. i < length (inputs n)" by auto
  have "\<forall>h1 b. cache_filled h h1 \<longrightarrow> b \<in> set (map ((!) (inputs n)) indices) \<longrightarrow>
          (\<exists>v h2. ev h1 b = Inr (v, h2))"
    using ret range by auto
  from transform_outputs_returns[OF ev this] obtain vs h' where
    t: "transform_outputs ev h (map ((!) (inputs n)) indices) = Inr (vs, h')" by blast
  then have "GetInputValuesN ev h this indices = Inr (Some vs, h')"
    using GetInputValuesN_in_range[where h=h, OF ev n ne range] by (simp add: and_then_def)
  with False GetInputValuesN_cache_filled[OF ev] show ?thesis by blast
qed

lemma GetDefaultOutput_cache_filled:
  assumes "cache_filled h h'" and "h this = Some n"
  shows "GetDefaultOutput h' this = Inr (default_output n)"
  using cache_filled_inputs[where h=h, OF assms] by (auto simp: GetDefaultOutput_def)

lemma call_returns:
  assumes ev: "fills_caches ev" and n: "h this = Some n"
    and ret: "\<forall>h1 b. cache_filled h h1 \<longrightarrow> b \<in> set (inputs n) \<longrightarrow> (\<exists>v h2. ev h1 b = Inr (v, h2))"
  shows "\<exists>r h'. call f ev h this = Inr (r, h')"
proof -
  from GetInputValues_returns[where h=h, OF ev n ret] obtain vs h' where
    g: "GetInputValues ev h this = Inr (vs, h')" and c: "cache_filled h h'" by blast
  have d: "GetDefaultOutput h' this = Inr (default_output n)"
    using GetDefaultOutput_cache_filled[where h=h, OF c n] .
  have 1: "\<exists>r h'. on_values g ev h this = Inr (r, h')" for g
    using g by (simp add: on_values_def)
  have 2: "\<exists>r h'. on_values_or_default g ev h this = Inr (r, h')" for g
    using g d by (simp add: on_values_or_default_def)
  have 3: "\<exists>r h'. (case GetInputValuesN ev h this indices of
        Inl e \<Rightarrow> Inl e
      | Inr (None, h') \<Rightarrow>
          (case GetDefaultOutput h' this of Inl e \<Rightarrow> Inl e | Inr d \<Rightarrow> Inr (d, h'))
      | Inr (Some vals, h') \<Rightarrow> Inr (g vals, h')) = Inr (r, h')" if "indices \<noteq> []" for indices g
  proof -
    from GetInputValuesN_returns[where h=h, OF ev n that ret] obtain r h1 where
      "GetInputValuesN ev h this indices = Inr (r, h1)" and "cache_filled h h1" by blast
    then show ?thesis
      using GetDefaultOutput_cache_filled[where h=h, OF _ n] by (cases r) auto
  qed
  show ?thesis
  proof (cases f)
    case NotFn
    then show ?thesis using 3[of "[0]"] by (simp add: Not_fn_def)
  next
    case GateFn
    then show ?thesis using 3[of "[0, 1]"] by (simp add: Gate_def)
  next
    case NegSumFn
    then show ?thesis using 1[of "reduce 0 (+)"] by (auto simp: NegSum_def Sum_def)
  qed (use 1 2 in \<open>simp_all add: Sum_def And_def AnyEq_def Sin_def Cos_def Product_def Exp_def
       LessThan_def GreaterThan_def Max_fn_def Min_fn_def Square_def PosClamp_def NegClamp_def
       Sqrt_def\<close>)
qed

lemma GetOutput_returns:
  "inputs_ranked rank h \<Longrightarrow> h this \<noteq> None \<Longrightarrow> rank this < fuel \<Longrightarrow>
     \<exists>r h'. GetOutput fuel h this = Inr (r, h')"
proof (induction fuel arbitrary: h this)
  case 0
  then show ?case by simp
next
  case (Suc fuel)
  from Suc.prems obtain n where n: "h this = Some n" by auto
  show ?case
  proof (cases "cached_output_valid n \<or> function_pointer n = None")
    case True
    with n show ?thesis by auto
  next
    case False
    then obtain f where f: "function_pointer n = Some f" and inv: "\<not> cached_output_valid n"
      by auto
    have "\<forall>h1 b. cache_filled h h1 \<longrightarrow> b \<in> set (inputs n) \<longrightarrow>
            (\<exists>v h2. GetOutput fuel h1 b = Inr (v, h2))"
    proof (intro allI impI)
      fix h1 b assume c: "cache_filled h h1" and b: "b \<in> set (inputs n)"
      from b n Suc.prems(1) have "h b \<noteq> None" and "rank b < rank this"
        by (auto simp: inputs_ranked_def)
      then have "h1 b \<noteq> None" and "rank b < fuel"
        using cache_filled_live[OF c] Suc.prems(3) by auto
      with Suc.IH[OF cache_filled_inputs_ranked[OF c Suc.prems(1)]]
      show "\<exists>v h2. GetOutput fuel h1 b = Inr (v, h2)" by blast
    qed
    from call_returns[where h=h, OF GetOutput_fills_caches n this] obtain r h1 where
      r: "call f (GetOutput fuel) h this = Inr (r, h1)" by blast
    then have "cache_filled h h1" using call_cache_filled[OF GetOutput_fills_caches] by blast
    then have "h1 this \<noteq> None" using cache_filled_live n by simp
    with n f inv r show ?thesis by auto
  qed
qed

subsection \<open>Invalidation returns on a graph without a cycle of outputs\<close>

lemma flags_cleared_live:
  assumes "flags_cleared h h'"
  shows "h' a \<noteq> None \<longleftrightarrow> h a \<noteq> None"
  using flags_cleared_at[OF assms, of a] by (cases "h a") auto

lemma flags_cleared_outputs_ranked:
  assumes c: "flags_cleared h h'" and r: "outputs_ranked rank h"
  shows "outputs_ranked rank h'"
  unfolding outputs_ranked_def
proof (intro allI impI ballI)
  fix a n' b assume "h' a = Some n'" and b: "b \<in> set (outputs n')"
  then have "(a, b) \<in> out_edges h'" by (auto simp: out_edges_def)
  then have "(a, b) \<in> out_edges h" using flags_cleared_out_edges[OF c] by simp
  with r have "h b \<noteq> None \<and> rank b < rank a" by (auto simp: outputs_ranked_def out_edges_def)
  then show "h' b \<noteq> None \<and> rank b < rank a" using flags_cleared_live[OF c] by simp
qed

lemma for_each_output_returns:
  assumes f: "\<forall>h1 b h2. f h1 b = Inr h2 \<longrightarrow> flags_cleared h1 h2"
    and ret: "\<forall>h1 b. flags_cleared h h1 \<longrightarrow> b \<in> set xs \<longrightarrow> (\<exists>h2. f h1 b = Inr h2)"
  shows "\<exists>h'. for_each_output f xs h = Inr h'"
  using ret
proof (induction xs arbitrary: h)
  case Nil
  then show ?case by simp
next
  case (Cons x xs)
  from Cons.prems obtain h1 where 1: "f h x = Inr h1"
    using flags_cleared_refl by fastforce
  with f have c: "flags_cleared h h1" by blast
  have "\<forall>h2 b. flags_cleared h1 h2 \<longrightarrow> b \<in> set xs \<longrightarrow> (\<exists>h3. f h2 b = Inr h3)"
    using Cons.prems flags_cleared_trans[OF c] by simp
  from Cons.IH[OF this] obtain h' where "for_each_output f xs h1 = Inr h'" by blast
  with 1 show ?case by simp
qed

lemma RecursiveInvalidateCache_returns:
  "outputs_ranked rank h \<Longrightarrow> h this \<noteq> None \<Longrightarrow> rank this < fuel \<Longrightarrow>
     \<exists>h'. RecursiveInvalidateCache fuel h this = Inr h'"
proof (induction fuel arbitrary: h this)
  case 0
  then show ?case by simp
next
  case (Suc fuel)
  from Suc.prems obtain n where n: "h this = Some n" by auto
  let ?h1 = "h(this \<mapsto> n\<lparr>cached_output_valid := False\<rparr>)"
  have c1: "flags_cleared h ?h1" using n by (rule flags_cleared_upd)
  have "\<forall>h2 b. flags_cleared ?h1 h2 \<longrightarrow> b \<in> set (outputs n) \<longrightarrow>
          (\<exists>h3. RecursiveInvalidateCache fuel h2 b = Inr h3)"
  proof (intro allI impI)
    fix h2 b assume c: "flags_cleared ?h1 h2" and b: "b \<in> set (outputs n)"
    have c2: "flags_cleared h h2" using c1 c by (rule flags_cleared_trans)
    from b n Suc.prems(1) have "h b \<noteq> None" and "rank b < rank this"
      by (auto simp: outputs_ranked_def)
    then have "h2 b \<noteq> None" and "rank b < fuel"
      using flags_cleared_live[OF c2] Suc.prems(3) by auto
    with Suc.IH[OF flags_cleared_outputs_ranked[OF c2 Suc.prems(1)]]
    show "\<exists>h3. RecursiveInvalidateCache fuel h2 b = Inr h3" by blast
  qed
  moreover have "\<forall>h1 b h2. RecursiveInvalidateCache fuel h1 b = Inr h2 \<longrightarrow> flags_cleared h1 h2"
    using RecursiveInvalidateCache_inv by blast
  ultimately obtain h' where
    "for_each_output (RecursiveInvalidateCache fuel) (outputs n) ?h1 = Inr h'"
    using for_each_output_returns[where f="RecursiveInvalidateCache fuel" and h="?h1"] by blast
  with n show ?case by simp
qed

lemma outputs_ranked_upd:
  assumes "outputs_ranked rank h" and "h x = Some n" and "outputs n' = outputs n"
  shows "outputs_ranked rank (h(x \<mapsto> n'))"
  using assms unfolding outputs_ranked_def by (auto split: if_splits)

text \<open>
  Each mutation returns when the outputs have no cycle and the fuel exceeds the rank of the
  mutated node; for \<open>AddInput\<close> the new output edge, from \<open>node\<close> to \<open>x\<close>, has to respect the
  ranks as well.
\<close>

lemma mutations_return:
  assumes r: "outputs_ranked rank h" and x: "h x \<noteq> None" and fuel: "rank x < fuel"
  shows "\<exists>h'. SetFunctionPointer fuel h x f = Inr h'"
    and "\<exists>h'. AddInputs fuel h x nodes = Inr h'"
    and "\<exists>h'. SetInputs fuel h x nodes = Inr h'"
    and "\<exists>h'. SetDefaultOutput fuel h x v = Inr h'"
    and "h node \<noteq> None \<Longrightarrow> rank x < rank node \<Longrightarrow> \<exists>h'. AddInput fuel h x node = Inr h'"
proof -
  from x obtain n where n: "h x = Some n" by auto
  have upd: "\<exists>h'. RecursiveInvalidateCache fuel (h(x \<mapsto> n')) x = Inr h'"
    if "outputs n' = outputs n" for n'
    using RecursiveInvalidateCache_returns[OF outputs_ranked_upd[where h=h, OF r n that] _ fuel]
    by simp
  show "\<exists>h'. SetFunctionPointer fuel h x f = Inr h'"
    using n upd[of "n\<lparr>function_pointer := f\<rparr>"] by (simp add: SetFunctionPointer_def)
  show "\<exists>h'. AddInputs fuel h x nodes = Inr h'"
    using n upd[of "n\<lparr>inputs := inputs n @ nodes\<rparr>"] by (simp add: AddInputs_def)
  show "\<exists>h'. SetInputs fuel h x nodes = Inr h'"
    using n upd[of "n\<lparr>inputs := nodes\<rparr>"] by (simp add: SetInputs_def)
  show "\<exists>h'. SetDefaultOutput fuel h x v = Inr h'"
    using n upd[of "n\<lparr>default_output := v\<rparr>"] by (simp add: SetDefaultOutput_def)
  show "\<exists>h'. AddInput fuel h x node = Inr h'" if live: "h node \<noteq> None" and lt: "rank x < rank node"
  proof -
    let ?h1 = "h(x \<mapsto> n\<lparr>inputs := inputs n @ [node]\<rparr>)"
    have r1: "outputs_ranked rank ?h1"
      using outputs_ranked_upd[where h=h, OF r n] by simp
    from live have "?h1 node \<noteq> None" by simp
    then obtain m where m: "?h1 node = Some m" by blast
    let ?h2 = "?h1(node \<mapsto> m\<lparr>outputs := outputs m @ [x]\<rparr>)"
    have out: "AddOutput ?h1 node x = Inr ?h2" using m by (simp add: AddOutput_def)
    have "outputs_ranked rank ?h2"
      unfolding outputs_ranked_def
    proof (intro allI impI ballI)
      fix a k b assume a: "?h2 a = Some k" and b: "b \<in> set (outputs k)"
      show "?h2 b \<noteq> None \<and> rank b < rank a"
      proof (cases "a = node")
        case True
        with a have "k = m\<lparr>outputs := outputs m @ [x]\<rparr>" by simp
        with b have "b \<in> set (outputs m) \<or> b = x" by auto
        then show ?thesis
        proof
          assume "b \<in> set (outputs m)"
          with r1 m have "?h1 b \<noteq> None \<and> rank b < rank node" by (auto simp: outputs_ranked_def)
          with True show ?thesis by auto
        next
          assume "b = x"
          with lt True show ?thesis by auto
        qed
      next
        case False
        with a have "?h1 a = Some k" by simp
        with r1 b have "?h1 b \<noteq> None \<and> rank b < rank a" by (auto simp: outputs_ranked_def)
        then show ?thesis by auto
      qed
    qed
    moreover have "?h2 x \<noteq> None" by simp
    ultimately obtain h' where "RecursiveInvalidateCache fuel ?h2 x = Inr h'"
      using RecursiveInvalidateCache_returns[where this=x and h="?h2"] fuel by blast
    with n out show ?thesis by (simp add: AddInput_def)
  qed
qed

subsection \<open>Invalidation does not return on a cycle of outputs\<close>

lemma for_each_output_fails:
  assumes pres: "\<forall>h1 b h2. f h1 b = Inr h2 \<longrightarrow> flags_cleared h1 h2"
    and bad: "\<forall>h1 h2. flags_cleared h h1 \<longrightarrow> f h1 b \<noteq> Inr h2"
    and b: "b \<in> set xs"
  shows "for_each_output f xs h \<noteq> Inr h'"
  using bad b
proof (induction xs arbitrary: h)
  case Nil
  then show ?case by simp
next
  case (Cons x xs)
  show ?case
  proof (cases "f h x")
    case (Inl e)
    then show ?thesis by simp
  next
    case (Inr h1)
    with pres have c: "flags_cleared h h1" by blast
    from Inr Cons.prems(1) flags_cleared_refl have "x \<noteq> b" by blast
    with Cons.prems(2) have "b \<in> set xs" by simp
    moreover have "\<forall>h2 h3. flags_cleared h1 h2 \<longrightarrow> f h2 b \<noteq> Inr h3"
      using Cons.prems(1) flags_cleared_trans[OF c] by blast
    ultimately have "for_each_output f xs h1 \<noteq> Inr h'" using Cons.IH by blast
    with Inr show ?thesis by simp
  qed
qed

text \<open>On a cycle of output edges the invalidation does not return, whatever the fuel.\<close>

lemma RecursiveInvalidateCache_cycle:
  "(x, x) \<in> (out_edges h)\<^sup>+ \<Longrightarrow> RecursiveInvalidateCache fuel h x \<noteq> Inr h'"
proof (induction fuel arbitrary: h x h')
  case 0
  then show ?case by simp
next
  case (Suc fuel)
  show ?case
  proof (cases "h x")
    case None
    then show ?thesis by simp
  next
    case (Some n)
    let ?h1 = "h(x \<mapsto> n\<lparr>cached_output_valid := False\<rparr>)"
    have c1: "flags_cleared h ?h1" using Some by (rule flags_cleared_upd)
    from Suc.prems obtain b where xb: "(x, b) \<in> out_edges h" and bx: "(b, x) \<in> (out_edges h)\<^sup>*"
      by (meson tranclD)
    from xb Some have b: "b \<in> set (outputs n)" by (simp add: out_edges_def)
    from bx xb have cyc: "(b, b) \<in> (out_edges h)\<^sup>+" by (rule rtrancl_into_trancl1)
    have bad: "\<forall>h2 h3. flags_cleared ?h1 h2 \<longrightarrow> RecursiveInvalidateCache fuel h2 b \<noteq> Inr h3"
    proof (intro allI impI)
      fix h2 h3 assume "flags_cleared ?h1 h2"
      with c1 have "flags_cleared h h2" by (rule flags_cleared_trans)
      then have "out_edges h2 = out_edges h" by (rule flags_cleared_out_edges)
      with cyc have "(b, b) \<in> (out_edges h2)\<^sup>+" by simp
      then show "RecursiveInvalidateCache fuel h2 b \<noteq> Inr h3" by (rule Suc.IH)
    qed
    have pres: "\<forall>h1 b h2. RecursiveInvalidateCache fuel h1 b = Inr h2 \<longrightarrow> flags_cleared h1 h2"
      using RecursiveInvalidateCache_inv by blast
    have "for_each_output (RecursiveInvalidateCache fuel) (outputs n) ?h1 \<noteq> Inr h'"
      using pres bad b by (rule for_each_output_fails)
    with Some show ?thesis by simp
  qed
qed

subsection \<open>Sortedness\<close>


subsection \<open>What a mutation leaves alone\<close>

lemma rtrancl_insert_back:
  assumes "(x, y) \<in> (insert (a, x) R)\<^sup>*"
  shows "(x, y) \<in> R\<^sup>*"
  using assms
proof (induction rule: rtrancl_induct)
  case base
  then show ?case by simp
next
  case (step y z)
  then show ?case by (auto intro: rtrancl_into_rtrancl)
qed

lemma invalidated_elsewhere:
  assumes run: "RecursiveInvalidateCache fuel h1 x = Inr h'"
    and edges: "out_edges h1 \<subseteq> insert (a, x) (out_edges h)"
    and cache: "\<forall>b. map_option cached_output (h1 b) = map_option cached_output (h b) \<and>
                    IsCacheValid h1 b = IsCacheValid h b"
  shows "map_option cached_output (h' y) = map_option cached_output (h y) \<and>
         ((x, y) \<notin> (out_edges h)\<^sup>* \<longrightarrow> IsCacheValid h' y = IsCacheValid h y)"
proof
  from RecursiveInvalidateCache_inv[OF run]
  have c: "flags_cleared h1 h'" and same: "\<forall>b. (x, b) \<notin> (out_edges h1)\<^sup>* \<longrightarrow> h' b = h1 b"
    by simp_all
  show "map_option cached_output (h' y) = map_option cached_output (h y)"
    using flags_cleared_cached_output[OF c, of y] cache by simp
  show "(x, y) \<notin> (out_edges h)\<^sup>* \<longrightarrow> IsCacheValid h' y = IsCacheValid h y"
  proof
    assume nr: "(x, y) \<notin> (out_edges h)\<^sup>*"
    have "(x, y) \<notin> (out_edges h1)\<^sup>*"
    proof
      assume "(x, y) \<in> (out_edges h1)\<^sup>*"
      then have "(x, y) \<in> (insert (a, x) (out_edges h))\<^sup>*"
        using rtrancl_mono[OF edges] by (rule set_mp[rotated])
      then have "(x, y) \<in> (out_edges h)\<^sup>*" by (rule rtrancl_insert_back)
      with nr show False by simp
    qed
    with same have "h' y = h1 y" by simp
    then have "IsCacheValid h' y = IsCacheValid h1 y" by (simp add: IsCacheValid_def)
    with cache show "IsCacheValid h' y = IsCacheValid h y" by simp
  qed
qed

text \<open>
  A mutation that returns has either changed nothing (\<open>SetDefaultOutput\<close> with the same
  value) or has run the invalidation from \<open>x\<close> on a heap with the caches of \<open>h\<close> and the output
  edges of \<open>h\<close>, with one more edge into \<open>x\<close> in the case of \<open>AddInput\<close>.
\<close>

lemma mutation_runs_invalidation:
  assumes "SetFunctionPointer fuel h x f = Inr h' \<or> AddInput fuel h x node = Inr h' \<or>
           AddInputs fuel h x nodes = Inr h' \<or> SetInputs fuel h x nodes = Inr h' \<or>
           SetDefaultOutput fuel h x v = Inr h'"
  shows "h' = h \<or>
         (\<exists>h1 a. RecursiveInvalidateCache fuel h1 x = Inr h' \<and>
            out_edges h \<subseteq> out_edges h1 \<and> out_edges h1 \<subseteq> insert (a, x) (out_edges h) \<and>
            (\<forall>b. map_option cached_output (h1 b) = map_option cached_output (h b) \<and>
                 IsCacheValid h1 b = IsCacheValid h b))"
proof -
  have upd: ?thesis
    if n: "h x = Some n" and run: "RecursiveInvalidateCache fuel (h(x \<mapsto> n')) x = Inr h'"
      and o: "outputs n' = outputs n" and c: "cached_output n' = cached_output n"
      and v: "cached_output_valid n' = cached_output_valid n" for n n'
  proof -
    have "out_edges (h(x \<mapsto> n')) = out_edges h"
      using out_edges_upd[of h x n n', OF n o] .
    moreover have
      "\<forall>b. map_option cached_output ((h(x \<mapsto> n')) b) = map_option cached_output (h b) \<and>
           IsCacheValid (h(x \<mapsto> n')) b = IsCacheValid h b"
      using n c v by (simp add: IsCacheValid_def)
    ultimately show ?thesis using run by blast
  qed
  from assms consider
      (fp) "SetFunctionPointer fuel h x f = Inr h'"
    | (add) "AddInput fuel h x node = Inr h'"
    | (adds) "AddInputs fuel h x nodes = Inr h'"
    | (set) "SetInputs fuel h x nodes = Inr h'"
    | (dflt) "SetDefaultOutput fuel h x v = Inr h'"
    by blast
  then show ?thesis
  proof cases
    case fp
    then obtain n where "h x = Some n"
      and "RecursiveInvalidateCache fuel (h(x \<mapsto> n\<lparr>function_pointer := f\<rparr>)) x = Inr h'"
      by (auto simp: SetFunctionPointer_def split: option.splits)
    then show ?thesis by (rule upd) simp_all
  next
    case adds
    then obtain n where "h x = Some n"
      and "RecursiveInvalidateCache fuel (h(x \<mapsto> n\<lparr>inputs := inputs n @ nodes\<rparr>)) x = Inr h'"
      by (auto simp: AddInputs_def split: option.splits)
    then show ?thesis by (rule upd) simp_all
  next
    case set
    then obtain n where "h x = Some n"
      and "RecursiveInvalidateCache fuel (h(x \<mapsto> n\<lparr>inputs := nodes\<rparr>)) x = Inr h'"
      by (auto simp: SetInputs_def split: option.splits)
    then show ?thesis by (rule upd) simp_all
  next
    case dflt
    show ?thesis
    proof (cases "h' = h")
      case True
      then show ?thesis by simp
    next
      case False
      with dflt obtain n where "h x = Some n"
        and "RecursiveInvalidateCache fuel (h(x \<mapsto> n\<lparr>default_output := v\<rparr>)) x = Inr h'"
        by (auto simp: SetDefaultOutput_def split: option.splits if_splits)
      then show ?thesis by (rule upd) simp_all
    qed
  next
    case add
    then obtain n h2 where n: "h x = Some n"
      and out: "AddOutput (h(x \<mapsto> n\<lparr>inputs := inputs n @ [node]\<rparr>)) node x = Inr h2"
      and run: "RecursiveInvalidateCache fuel h2 x = Inr h'"
      by (auto simp: AddInput_def split: option.splits sum.splits)
    let ?h1 = "h(x \<mapsto> n\<lparr>inputs := inputs n @ [node]\<rparr>)"
    from out obtain m where m: "?h1 node = Some m"
      and h2: "h2 = ?h1(node \<mapsto> m\<lparr>outputs := outputs m @ [x]\<rparr>)"
      by (auto simp: AddOutput_def split: option.splits)
    have "out_edges h2 = insert (node, x) (out_edges h)"
      using out_edges_AddOutput[OF out] out_edges_upd[of h x n, OF n] by simp
    moreover have "\<forall>b. map_option cached_output (h2 b) = map_option cached_output (h b) \<and>
                       IsCacheValid h2 b = IsCacheValid h b"
      using n m by (auto simp: h2 IsCacheValid_def split: if_splits)
    ultimately show ?thesis using run by blast
  qed
qed

subsection \<open>\<open>AddInput\<close> records the edge on both sides\<close>

lemma in_edges_AddOutput:
  assumes "AddOutput h node this = Inr h'"
  shows "in_edges h' = in_edges h"
  using assms by (auto simp: AddOutput_def in_edges_def split: option.splits if_splits)

lemma AddInput_edges:
  assumes "AddInput fuel h x node = Inr h'"
  shows "in_edges h' = insert (x, node) (in_edges h) \<and>
         out_edges h' = insert (node, x) (out_edges h)"
proof -
  from assms obtain n h2 where n: "h x = Some n"
    and out: "AddOutput (h(x \<mapsto> n\<lparr>inputs := inputs n @ [node]\<rparr>)) node x = Inr h2"
    and run: "RecursiveInvalidateCache fuel h2 x = Inr h'"
    by (auto simp: AddInput_def split: option.splits sum.splits)
  let ?h1 = "h(x \<mapsto> n\<lparr>inputs := inputs n @ [node]\<rparr>)"
  have "in_edges ?h1 = insert (x, node) (in_edges h)"
    using n by (auto simp: in_edges_def split: if_splits)
  then have i: "in_edges h2 = insert (x, node) (in_edges h)"
    using in_edges_AddOutput[OF out] by simp
  have o: "out_edges h2 = insert (node, x) (out_edges h)"
    using out_edges_AddOutput[OF out] out_edges_upd[of h x n, OF n] by simp
  from RecursiveInvalidateCache_inv[OF run] have "flags_cleared h2 h'" by simp
  then show ?thesis
    using i o flags_cleared_in_edges flags_cleared_out_edges by simp
qed

text \<open>
  So a graph wired with \<open>AddInput\<close> alone keeps the mirror image: the output edges are the
  input edges reversed.
\<close>

lemma AddInput_keeps_mirror:
  assumes "AddInput fuel h x node = Inr h'" and "out_edges h = (in_edges h)\<inverse>"
  shows "out_edges h' = (in_edges h')\<inverse>"
  using AddInput_edges[OF assms(1)] assms(2) by auto

subsection \<open>The scenarios\<close>

lemma scenario_wired_heap: "scenario_wired = Inr wired_heap"
  by (simp add: scenario_wired_def scenario_nodes_def wired_heap_def node_defs script_defs
      fun_upd_twist)

lemma scenario_evaluated_heap: "scenario_evaluated = Inr (7, evaluated_heap)"
  by (simp add: scenario_evaluated_def scenario_wired_def scenario_nodes_def evaluated_heap_def
      Sum_def node_defs script_defs fun_upd_twist)

lemma stale_evaluated_heap: "stale_evaluated = Inr (5, stale_heap)"
  by (simp add: stale_evaluated_def stale_wired_def stale_nodes_def stale_heap_def Sum_def
      node_defs script_defs fun_upd_twist)

subsection \<open>The claims\<close>

text \<open>
  C1. The claim: after any sequence of \<open>AddInput\<close>, \<open>AddInputs\<close> and \<open>SetInputs\<close>, node
  \<open>B\<close> is among the outputs of \<open>A\<close> exactly when \<open>A\<close> is among the inputs of \<open>B\<close>, and each of
  the three registers the mutated node as an output of every input it adds.

  \<open>AddInput\<close> does so (\<open>AddInput_edges\<close>, \<open>AddInput_keeps_mirror\<close>). \<open>AddInputs\<close> and
  \<open>SetInputs\<close> store the inputs and call \<open>AddOutput\<close> on none of them. In the scenario
  wired by \<open>AddInput\<close>, \<open>A\<close> is an input of \<open>C\<close> and \<open>C\<close> is an output of \<open>A\<close>, and after
  \<open>A->SetDefaultOutput(10.)\<close> the output of \<open>C\<close> is 15. Wired by \<open>C->AddInputs({A, B})\<close>, and
  by \<open>C->SetInputs({A, B})\<close>, \<open>A\<close> is an input of \<open>C\<close> and \<open>C\<close> is not an output of \<open>A\<close>; then
  \<open>A->SetDefaultOutput(10.)\<close> leaves the cache of \<open>C\<close> valid and \<open>C->GetOutput()\<close> still
  returns 7.
\<close>

theorem AddInputs_SetInputs_register_no_output:
  "and_then scenario_wired (\<lambda>h. Inr ((2, 0) \<in> in_edges h, (0, 2) \<in> out_edges h))
     = Inr (True, True) \<and>
   and_then batch_wired (\<lambda>h. Inr ((2, 0) \<in> in_edges h, (0, 2) \<in> out_edges h))
     = Inr (True, False) \<and>
   and_then set_wired (\<lambda>h. Inr ((2, 0) \<in> in_edges h, (0, 2) \<in> out_edges h))
     = Inr (True, False) \<and>
   output_of scenario_reevaluated = Inr 15 \<and>
   output_of batch_reevaluated = Inr 7 \<and> output_of set_reevaluated = Inr 7"
  by (simp add: scenario_wired_def scenario_evaluated_def scenario_mutated_def
      scenario_reevaluated_def batch_wired_def batch_reevaluated_def set_wired_def
      set_reevaluated_def scenario_nodes_def in_edges_def out_edges_def Sum_def node_defs
      script_defs)

text \<open>
  C2. After a mutation of node \<open>x\<close> (\<open>SetFunctionPointer\<close>, \<open>AddInput\<close>, \<open>AddInputs\<close>,
  \<open>SetInputs\<close>, or a \<open>SetDefaultOutput\<close> that changes the value) has returned,
  \<open>IsCacheValid\<close> is false for \<open>x\<close> and for every node \<open>y\<close> reachable from \<open>x\<close> along output
  edges, those of the heap before the call as well as those of the heap after it. The
  mutation returns whenever the outputs have no cycle and the fuel exceeds the rank of \<open>x\<close>
  (\<open>mutations_return\<close>), and never on a cycle through \<open>x\<close>
  (\<open>RecursiveInvalidateCache_cycle\<close>).
\<close>

theorem mutation_invalidates_dependents:
  assumes reach: "(x, y) \<in> (out_edges h)\<^sup>* \<or> (x, y) \<in> (out_edges h')\<^sup>*"
  shows "(SetFunctionPointer fuel h x f = Inr h' \<longrightarrow> IsCacheValid h' y = Inr False) \<and>
         (AddInput fuel h x node = Inr h' \<longrightarrow> IsCacheValid h' y = Inr False) \<and>
         (AddInputs fuel h x nodes = Inr h' \<longrightarrow> IsCacheValid h' y = Inr False) \<and>
         (SetInputs fuel h x nodes = Inr h' \<longrightarrow> IsCacheValid h' y = Inr False) \<and>
         (SetDefaultOutput fuel h x v = Inr h' \<and> GetDefaultOutput h x \<noteq> Inr v \<longrightarrow>
            IsCacheValid h' y = Inr False)"
proof (intro conjI impI)
  assume "SetFunctionPointer fuel h x f = Inr h'"
  then obtain n where n: "h x = Some n"
    and run: "RecursiveInvalidateCache fuel (h(x \<mapsto> n\<lparr>function_pointer := f\<rparr>)) x = Inr h'"
    by (auto simp: SetFunctionPointer_def split: option.splits)
  show "IsCacheValid h' y = Inr False"
    by (rule invalidated_reachable[OF run _ reach]) (simp add: out_edges_upd[of h x n, OF n])
next
  assume "AddInput fuel h x node = Inr h'"
  then obtain n h2 where n: "h x = Some n"
    and out: "AddOutput (h(x \<mapsto> n\<lparr>inputs := inputs n @ [node]\<rparr>)) node x = Inr h2"
    and run: "RecursiveInvalidateCache fuel h2 x = Inr h'"
    by (auto simp: AddInput_def split: option.splits sum.splits)
  show "IsCacheValid h' y = Inr False"
    by (rule invalidated_reachable[OF run _ reach])
      (auto simp: out_edges_AddOutput[OF out] out_edges_upd[of h x n, OF n])
next
  assume "AddInputs fuel h x nodes = Inr h'"
  then obtain n where n: "h x = Some n"
    and run: "RecursiveInvalidateCache fuel (h(x \<mapsto> n\<lparr>inputs := inputs n @ nodes\<rparr>)) x = Inr h'"
    by (auto simp: AddInputs_def split: option.splits)
  show "IsCacheValid h' y = Inr False"
    by (rule invalidated_reachable[OF run _ reach]) (simp add: out_edges_upd[of h x n, OF n])
next
  assume "SetInputs fuel h x nodes = Inr h'"
  then obtain n where n: "h x = Some n"
    and run: "RecursiveInvalidateCache fuel (h(x \<mapsto> n\<lparr>inputs := nodes\<rparr>)) x = Inr h'"
    by (auto simp: SetInputs_def split: option.splits)
  show "IsCacheValid h' y = Inr False"
    by (rule invalidated_reachable[OF run _ reach]) (simp add: out_edges_upd[of h x n, OF n])
next
  assume "SetDefaultOutput fuel h x v = Inr h' \<and> GetDefaultOutput h x \<noteq> Inr v"
  then obtain n where n: "h x = Some n"
    and run: "RecursiveInvalidateCache fuel (h(x \<mapsto> n\<lparr>default_output := v\<rparr>)) x = Inr h'"
    by (auto simp: SetDefaultOutput_def GetDefaultOutput_def split: option.splits if_splits)
  show "IsCacheValid h' y = Inr False"
    by (rule invalidated_reachable[OF run _ reach]) (simp add: out_edges_upd[of h x n, OF n])
qed

text \<open>
  In the evaluated scenario \<open>C\<close> is an output of \<open>A\<close>, and each of the five mutations of \<open>A\<close>
  returns and leaves the cache of \<open>C\<close> not valid.
\<close>

theorem mutation_invalidates_dependents_witness:
  "(0, 2) \<in> (out_edges evaluated_heap)\<^sup>* \<and>
   valid_after (SetFunctionPointer 2 evaluated_heap 0 (Some ProductFn)) 2 = Inr False \<and>
   valid_after (AddInput 2 evaluated_heap 0 1) 2 = Inr False \<and>
   valid_after (AddInputs 2 evaluated_heap 0 [1]) 2 = Inr False \<and>
   valid_after (SetInputs 2 evaluated_heap 0 [1]) 2 = Inr False \<and>
   GetDefaultOutput evaluated_heap 0 \<noteq> Inr 10 \<and>
   valid_after (SetDefaultOutput 2 evaluated_heap 0 10) 2 = Inr False"
proof -
  have reach: "(0, 2) \<in> (out_edges evaluated_heap)\<^sup>*"
    by (rule r_into_rtrancl) (simp add: out_edges_def evaluated_heap_def)
  have changes: "GetDefaultOutput evaluated_heap 0 \<noteq> Inr 10"
    by (simp add: GetDefaultOutput_def evaluated_heap_def)
  obtain h1 where 1: "SetFunctionPointer 2 evaluated_heap 0 (Some ProductFn) = Inr h1"
    by (simp add: evaluated_heap_def script_defs)
  obtain h2 where 2: "AddInput 2 evaluated_heap 0 1 = Inr h2"
    by (simp add: evaluated_heap_def script_defs)
  obtain h3 where 3: "AddInputs 2 evaluated_heap 0 [1] = Inr h3"
    by (simp add: evaluated_heap_def script_defs)
  obtain h4 where 4: "SetInputs 2 evaluated_heap 0 [1] = Inr h4"
    by (simp add: evaluated_heap_def script_defs)
  obtain h5 where 5: "SetDefaultOutput 2 evaluated_heap 0 10 = Inr h5"
    by (simp add: evaluated_heap_def script_defs)
  note inv = mutation_invalidates_dependents[where x=0 and y=2 and h=evaluated_heap and fuel=2,
      OF disjI1, OF reach]
  have "IsCacheValid h1 2 = Inr False"
    using inv[where h'=h1 and f="Some ProductFn"] 1 by simp
  moreover have "IsCacheValid h2 2 = Inr False"
    using inv[where h'=h2 and node=1] 2 by simp
  moreover have "IsCacheValid h3 2 = Inr False"
    using inv[where h'=h3 and nodes="[1]"] 3 by simp
  moreover have "IsCacheValid h4 2 = Inr False"
    using inv[where h'=h4 and nodes="[1]"] 4 by simp
  moreover have "IsCacheValid h5 2 = Inr False"
    using inv[where h'=h5 and v=10] 5 changes by simp
  ultimately show ?thesis
    using reach changes 1 2 3 4 5 by (simp add: valid_after_def and_then_def)
qed

text \<open>
  C3. \<open>GetOutput\<close> on a node whose cache is valid returns the cached value and the heap it
  was given. Otherwise the result is the default output when the function pointer is null and
  what the function returns when it is not; the heap returned is the one the function left,
  with the result stored in the node and its cache marked valid. After a call that returned,
  \<open>IsCacheValid\<close> is true and the cached value is the value returned. The call returns
  whenever the inputs have no cycle and the fuel exceeds the rank of the node.
\<close>

theorem GetOutput_cached_or_computed:
  assumes n: "h this = Some n"
  shows "(cached_output_valid n \<longrightarrow> GetOutput (Suc fuel) h this = Inr (cached_output n, h)) \<and>
    (\<not> cached_output_valid n \<and> function_pointer n = None \<longrightarrow>
       GetOutput (Suc fuel) h this =
         Inr (default_output n,
              h(this \<mapsto> n\<lparr>cached_output := default_output n, cached_output_valid := True\<rparr>))) \<and>
    (\<not> cached_output_valid n \<and> function_pointer n = Some f \<and>
     call f (GetOutput fuel) h this = Inr (r, h1) \<longrightarrow>
       GetOutput (Suc fuel) h this =
         Inr (r, h1(this \<mapsto> n\<lparr>cached_output := r, cached_output_valid := True\<rparr>))) \<and>
    (GetOutput k h this = Inr (r', h') \<longrightarrow>
       IsCacheValid h' this = Inr True \<and> map_option cached_output (h' this) = Some r') \<and>
    (inputs_ranked rank h \<and> rank this < k \<longrightarrow> (\<exists>r h'. GetOutput k h this = Inr (r, h')))"
proof (intro conjI impI)
  assume "cached_output_valid n"
  with n show "GetOutput (Suc fuel) h this = Inr (cached_output n, h)" by simp
next
  assume "\<not> cached_output_valid n \<and> function_pointer n = None"
  with n show "GetOutput (Suc fuel) h this =
         Inr (default_output n,
              h(this \<mapsto> n\<lparr>cached_output := default_output n, cached_output_valid := True\<rparr>))"
    by simp
next
  assume a: "\<not> cached_output_valid n \<and> function_pointer n = Some f \<and>
     call f (GetOutput fuel) h this = Inr (r, h1)"
  then have "cache_filled h h1" using call_cache_filled[OF GetOutput_fills_caches] by blast
  from cache_filled_at[OF this, of this] n a obtain n1 where "h1 this = Some n1"
    and "n1\<lparr>cached_output := r, cached_output_valid := True\<rparr> =
         n\<lparr>cached_output := r, cached_output_valid := True\<rparr>"
    by auto
  with n a show "GetOutput (Suc fuel) h this =
         Inr (r, h1(this \<mapsto> n\<lparr>cached_output := r, cached_output_valid := True\<rparr>))"
    by simp
next
  assume "GetOutput k h this = Inr (r', h')"
  from GetOutput_effect[OF this]
  show "IsCacheValid h' this = Inr True" and "map_option cached_output (h' this) = Some r'"
    by (auto simp: IsCacheValid_def)
next
  assume "inputs_ranked rank h \<and> rank this < k"
  with n show "\<exists>r h'. GetOutput k h this = Inr (r, h')"
    using GetOutput_returns[of rank h this k] by simp
qed

text \<open>
  In the scenario: \<open>C\<close> evaluated again returns the cached 7 and the same heap; before any
  evaluation \<open>A\<close> returns its default output 2 and \<open>C\<close> returns what \<open>Sum\<close> returns, 7, leaving
  the heap in which every cache is valid.
\<close>

theorem GetOutput_cached_or_computed_witness:
  "GetOutput 1 evaluated_heap 2 = Inr (7, evaluated_heap) \<and>
   output_of (GetOutput 1 wired_heap 0) = Inr 2 \<and>
   valid_after (heap_of (GetOutput 1 wired_heap 0)) 0 = Inr True \<and>
   call SumFn (GetOutput 1) wired_heap 2 = Inr (7, evaluated_heap(2 := wired_heap 2)) \<and>
   GetOutput 2 wired_heap 2 = Inr (7, evaluated_heap) \<and>
   IsCacheValid evaluated_heap 2 = Inr True \<and>
   inputs_ranked (\<lambda>a. if a = 2 then 1 else 0) wired_heap"
proof -
  let ?A = "\<lparr>inputs = [], function_pointer = None, default_output = 2, outputs = [2],
              cached_output = 0, cached_output_valid = False\<rparr>"
  let ?C = "\<lparr>inputs = [0, 1], function_pointer = Some SumFn, default_output = 0, outputs = [],
              cached_output = 0, cached_output_valid = False\<rparr>"
  let ?C' = "\<lparr>inputs = [0, 1], function_pointer = Some SumFn, default_output = 0, outputs = [],
              cached_output = 7, cached_output_valid = True\<rparr>"
  let ?rank = "\<lambda>a::nat. if a = 2 then 1 else (0::nat)"
  have A: "wired_heap 0 = Some ?A" and C: "wired_heap 2 = Some ?C"
    and C': "evaluated_heap 2 = Some ?C'"
    by (simp_all add: wired_heap_def evaluated_heap_def)
  have sum: "call SumFn (GetOutput 1) wired_heap 2 = Inr (7, evaluated_heap(2 := wired_heap 2))"
    by (simp add: wired_heap_def evaluated_heap_def Sum_def script_defs fun_upd_twist)
  have ranked: "inputs_ranked ?rank wired_heap"
    by (auto simp: inputs_ranked_def wired_heap_def split: if_splits)
  have store: "(evaluated_heap(2 := wired_heap 2))
      (2 \<mapsto> ?C\<lparr>cached_output := 7, cached_output_valid := True\<rparr>) = evaluated_heap"
    by (simp add: evaluated_heap_def)
  note w1 = GetOutput_cached_or_computed[where h=evaluated_heap and this=2 and fuel=0, OF C']
  note w2 = GetOutput_cached_or_computed[where h=wired_heap and this=0 and fuel=0, OF A]
  note w3 = GetOutput_cached_or_computed[where h=wired_heap and this=2 and fuel=1
      and f=SumFn and r=7 and ?h1.0="evaluated_heap(2 := wired_heap 2)"
      and k=2 and rank="?rank", OF C]
  have 1: "GetOutput 1 evaluated_heap 2 = Inr (7, evaluated_heap)" using w1 by simp
  have 2: "GetOutput 1 wired_heap 0 =
      Inr (2, wired_heap(0 \<mapsto> ?A\<lparr>cached_output := 2, cached_output_valid := True\<rparr>))"
    using w2 by simp
  have 3: "GetOutput 2 wired_heap 2 = Inr (7, evaluated_heap)"
    using w3 sum store by (simp add: eval_nat_numeral)
  have 4: "IsCacheValid evaluated_heap 2 = Inr True"
    using w3 3 by simp
  show ?thesis using 1 2 3 4 sum ranked
    by (simp add: output_of_def heap_of_def valid_after_def and_then_def IsCacheValid_def)
qed

text \<open>
  C4. The end-to-end scenario, wired with \<open>AddInput\<close>: \<open>C->GetOutput()\<close> is 7; after
  \<open>A->SetDefaultOutput(10.)\<close> the cache of \<open>C\<close> is not valid and \<open>C->GetOutput()\<close> is 15.
\<close>

theorem scenario_outputs:
  "output_of scenario_evaluated = Inr 7 \<and>
   valid_after scenario_mutated 2 = Inr False \<and>
   output_of scenario_reevaluated = Inr 15"
  by (simp add: scenario_reevaluated_def scenario_mutated_def scenario_evaluated_def
      scenario_wired_def scenario_nodes_def Sum_def node_defs script_defs)




text \<open>
  C6. An operator called on a node with fewer inputs than it needs (\<open>Not\<close> needs one, \<open>Gate\<close>
  two, \<open>AnyEq\<close>, \<open>Max\<close> and \<open>Min\<close> one) returns the node's default output, without an error
  and without evaluating any node.
\<close>

theorem arity_shortfall_returns_default:
  assumes "h node = Some n"
  shows "(length (inputs n) < 1 \<longrightarrow> Not_fn ev h node = Inr (default_output n, h)) \<and>
         (length (inputs n) < 2 \<longrightarrow> Gate ev h node = Inr (default_output n, h)) \<and>
         (length (inputs n) < 1 \<longrightarrow>
            AnyEq ev h node = Inr (default_output n, h) \<and>
            Max_fn ev h node = Inr (default_output n, h) \<and>
            Min_fn ev h node = Inr (default_output n, h))"
proof (intro conjI impI)
  assume "length (inputs n) < 1"
  then have e: "inputs n = []" by simp
  from e assms show "Not_fn ev h node = Inr (default_output n, h)"
    by (simp add: Not_fn_def GetInputValuesN_def GetDefaultOutput_def)
  from e assms have "on_values_or_default g ev h node = Inr (default_output n, h)" for g
    by (simp add: on_values_or_default_def GetInputValues_def GetDefaultOutput_def)
  then show "AnyEq ev h node = Inr (default_output n, h)"
    and "Max_fn ev h node = Inr (default_output n, h)"
    and "Min_fn ev h node = Inr (default_output n, h)"
    by (simp_all add: AnyEq_def Max_fn_def Min_fn_def)
next
  assume "length (inputs n) < 2"
  then have "max 0 1 \<ge> length (inputs n)" by simp
  with assms show "Gate ev h node = Inr (default_output n, h)"
    by (simp add: Gate_def GetInputValuesN_def GetDefaultOutput_def)
qed

text \<open>
  With default output 9: \<open>Not\<close>, \<open>AnyEq\<close>, \<open>Max\<close> and \<open>Min\<close> on no input, and \<open>Gate\<close> on no
  input and on one input, return 9.
\<close>

theorem arity_shortfall_returns_default_witness:
  "Not_fn (GetOutput 1) (small_graph 7 NotFn 9 []) 1 = Inr (9, small_graph 7 NotFn 9 []) \<and>
   Gate (GetOutput 1) (small_graph 7 GateFn 9 []) 1 = Inr (9, small_graph 7 GateFn 9 []) \<and>
   Gate (GetOutput 1) (small_graph 7 GateFn 9 [0]) 1 = Inr (9, small_graph 7 GateFn 9 [0]) \<and>
   AnyEq (GetOutput 1) (small_graph 7 AnyEqFn 9 []) 1 = Inr (9, small_graph 7 AnyEqFn 9 []) \<and>
   Max_fn (GetOutput 1) (small_graph 7 MaxFn 9 []) 1 = Inr (9, small_graph 7 MaxFn 9 []) \<and>
   Min_fn (GetOutput 1) (small_graph 7 MinFn 9 []) 1 = Inr (9, small_graph 7 MinFn 9 []) \<and>
   output_of (GetOutput 2 (small_graph 7 MaxFn 9 []) 1) = Inr 9"
proof -
  let ?n = "\<lambda>f ins. (GraphNode_function (Some f))\<lparr>default_output := 9, inputs := ins\<rparr>"
  have n: "small_graph 7 f 9 ins 1 = Some (?n f ins)" for f ins
    by (simp add: small_graph_def)
  have "output_of (GetOutput 2 (small_graph 7 MaxFn 9 []) 1) = Inr 9"
    using arity_shortfall_returns_default
      [of "small_graph 7 MaxFn 9 []" 1 "?n MaxFn []" "GetOutput 1", OF n]
    by (simp add: eval_nat_numeral output_of_def and_then_def small_graph_def node_defs)
  then show ?thesis
    using arity_shortfall_returns_default
        [of "small_graph 7 NotFn 9 []" 1 "?n NotFn []" "GetOutput 1", OF n]
      arity_shortfall_returns_default
        [of "small_graph 7 GateFn 9 []" 1 "?n GateFn []" "GetOutput 1", OF n]
      arity_shortfall_returns_default
        [of "small_graph 7 GateFn 9 [0]" 1 "?n GateFn [0]" "GetOutput 1", OF n]
      arity_shortfall_returns_default
        [of "small_graph 7 AnyEqFn 9 []" 1 "?n AnyEqFn []" "GetOutput 1", OF n]
      arity_shortfall_returns_default
        [of "small_graph 7 MaxFn 9 []" 1 "?n MaxFn []" "GetOutput 1", OF n]
      arity_shortfall_returns_default
        [of "small_graph 7 MinFn 9 []" 1 "?n MinFn []" "GetOutput 1", OF n]
    by (simp add: node_defs)
qed

text \<open>
  C7. For a list of indices that is not empty, \<open>GetInputValues<N>(indices)\<close> returns
  \<open>std::nullopt\<close>, and the heap it was given, when some index is at or past the number of
  inputs. Otherwise it evaluates the inputs at these indices in the order of the indices and,
  when these evaluations return, returns all their values: as many values as indices, the
  value at position \<open>k\<close> being the output cached in the input at \<open>indices[k]\<close>. It returns
  whenever the inputs have no cycle and the fuel is at least the rank of the node.
\<close>

theorem GetInputValuesN_all_or_nothing:
  assumes n: "h this = Some n" and ne: "indices \<noteq> []"
  shows "((\<exists>i\<in>set indices. length (inputs n) \<le> i) \<longrightarrow>
            GetInputValuesN (GetOutput fuel) h this indices = Inr (None, h)) \<and>
    ((\<forall>i\<in>set indices. i < length (inputs n)) \<longrightarrow>
       GetInputValuesN (GetOutput fuel) h this indices =
         and_then (transform_outputs (GetOutput fuel) h (map ((!) (inputs n)) indices))
           (\<lambda>(vals, h'). Inr (Some vals, h'))) \<and>
    (GetInputValuesN (GetOutput fuel) h this indices = Inr (Some vals, h') \<longrightarrow>
       length vals = length indices \<and>
       (\<forall>k<length indices. indices ! k < length (inputs n) \<and>
          IsCacheValid h' (inputs n ! (indices ! k)) = Inr True \<and>
          map_option cached_output (h' (inputs n ! (indices ! k))) = Some (vals ! k))) \<and>
    ((\<forall>i\<in>set indices. i < length (inputs n)) \<and> inputs_ranked rank h \<and> rank this \<le> fuel \<longrightarrow>
       (\<exists>vals h'. GetInputValuesN (GetOutput fuel) h this indices = Inr (Some vals, h')))"
proof (intro conjI impI)
  assume "\<exists>i\<in>set indices. length (inputs n) \<le> i"
  then show "GetInputValuesN (GetOutput fuel) h this indices = Inr (None, h)"
    using GetInputValuesN_out_of_range[where h=h, OF n] by simp
next
  assume "\<forall>i\<in>set indices. i < length (inputs n)"
  then show "GetInputValuesN (GetOutput fuel) h this indices =
         and_then (transform_outputs (GetOutput fuel) h (map ((!) (inputs n)) indices))
           (\<lambda>(vals, h'). Inr (Some vals, h'))"
    using GetInputValuesN_in_range[where h=h, OF GetOutput_fills_caches n ne] by simp
next
  assume run: "GetInputValuesN (GetOutput fuel) h this indices = Inr (Some vals, h')"
  have range: "\<forall>i\<in>set indices. i < length (inputs n)"
  proof (rule ccontr)
    assume "\<not> (\<forall>i\<in>set indices. i < length (inputs n))"
    then have "\<exists>i\<in>set indices. length (inputs n) \<le> i" by (simp add: not_less)
    from GetInputValuesN_out_of_range[where h=h, OF n this] run show False by simp
  qed
  with run have "transform_outputs (GetOutput fuel) h (map ((!) (inputs n)) indices) = Inr (vals, h')"
    using GetInputValuesN_in_range[where h=h, OF GetOutput_fills_caches n ne]
    by (auto simp: and_then_def split: sum.splits)
  from transform_outputs_values[OF this]
  have len: "length vals = length indices"
    and vals: "\<forall>k<length indices. \<exists>m. h' (inputs n ! (indices ! k)) = Some m \<and>
                 cached_output_valid m \<and> cached_output m = vals ! k"
    by auto
  show "length vals = length indices" by (rule len)
  show "\<forall>k<length indices. indices ! k < length (inputs n) \<and>
          IsCacheValid h' (inputs n ! (indices ! k)) = Inr True \<and>
          map_option cached_output (h' (inputs n ! (indices ! k))) = Some (vals ! k)"
    using vals range by (auto simp: IsCacheValid_def)
next
  assume a: "(\<forall>i\<in>set indices. i < length (inputs n)) \<and> inputs_ranked rank h \<and> rank this \<le> fuel"
  have "\<forall>h1 b. cache_filled h h1 \<longrightarrow> b \<in> set (inputs n) \<longrightarrow>
          (\<exists>v h2. GetOutput fuel h1 b = Inr (v, h2))"
  proof (intro allI impI)
    fix h1 b assume c: "cache_filled h h1" and b: "b \<in> set (inputs n)"
    from b n a have "h b \<noteq> None" and "rank b < rank this" by (auto simp: inputs_ranked_def)
    then have "h1 b \<noteq> None" and "rank b < fuel" using cache_filled_live[OF c] a by auto
    then show "\<exists>v h2. GetOutput fuel h1 b = Inr (v, h2)"
      using GetOutput_returns[OF cache_filled_inputs_ranked[OF c]] a by blast
  qed
  from GetInputValuesN_returns[where h=h, OF GetOutput_fills_caches n ne this] a
  show "\<exists>vals h'. GetInputValuesN (GetOutput fuel) h this indices = Inr (Some vals, h')"
    by (metis not_less option.exhaust)
qed

text \<open>
  A node with the two constant inputs 7 and 1: the indices \<open>{0, 1}\<close> give \<open>[7, 1]\<close>, the
  indices \<open>{1, 0}\<close> give \<open>[1, 7]\<close>, and the indices \<open>{0, 2}\<close> give \<open>std::nullopt\<close>.
\<close>

theorem GetInputValuesN_all_or_nothing_witness:
  "and_then (GetInputValuesN (GetOutput 1) (constants_graph [7, 1] GateFn) 2 [0, 1])
     (\<lambda>(r, h). Inr r) = Inr (Some [7, 1]) \<and>
   and_then (GetInputValuesN (GetOutput 1) (constants_graph [7, 1] GateFn) 2 [1, 0])
     (\<lambda>(r, h). Inr r) = Inr (Some [1, 7]) \<and>
   GetInputValuesN (GetOutput 1) (constants_graph [7, 1] GateFn) 2 [0, 2] =
     Inr (None, constants_graph [7, 1] GateFn) \<and>
   inputs_ranked (\<lambda>a. if a = 2 then 1 else 0) (constants_graph [7, 1] GateFn)"
proof -
  let ?g = "constants_graph [7, 1] GateFn"
  let ?n = "(GraphNode_function (Some GateFn))\<lparr>inputs := [0, 1]\<rparr>"
  let ?rank = "\<lambda>a::nat. if a = 2 then 1 else (0::nat)"
  have n: "?g 2 = Some ?n" by (simp add: constants_graph_def upt_rec)
  have ranked: "inputs_ranked ?rank ?g"
    by (auto simp: inputs_ranked_def constants_graph_def node_defs upt_rec split: if_splits)
  have t1: "and_then (and_then (transform_outputs (GetOutput 1) ?g (map ((!) (inputs ?n)) [0, 1]))
                (\<lambda>(vals, h'). Inr (Some vals, h'))) (\<lambda>(r, h). Inr r) = Inr (Some [7, 1])"
    by (simp add: constants_graph_def node_defs and_then_def)
  have t2: "and_then (and_then (transform_outputs (GetOutput 1) ?g (map ((!) (inputs ?n)) [1, 0]))
                (\<lambda>(vals, h'). Inr (Some vals, h'))) (\<lambda>(r, h). Inr r) = Inr (Some [1, 7])"
    by (simp add: constants_graph_def node_defs and_then_def)
  note w = GetInputValuesN_all_or_nothing[where h="?g" and this=2 and fuel=1 and rank="?rank", OF n]
  have "and_then (GetInputValuesN (GetOutput 1) ?g 2 [0, 1]) (\<lambda>(r, h). Inr r) = Inr (Some [7, 1])"
    using w[of "[0, 1]"] t1 by (simp add: node_defs)
  moreover have
    "and_then (GetInputValuesN (GetOutput 1) ?g 2 [1, 0]) (\<lambda>(r, h). Inr r) = Inr (Some [1, 7])"
    using w[of "[1, 0]"] t2 by (simp add: node_defs)
  moreover have "GetInputValuesN (GetOutput 1) ?g 2 [0, 2] = Inr (None, ?g)"
    using w[of "[0, 2]"] by (simp add: node_defs)
  ultimately show ?thesis using ranked by simp
qed

text \<open>
  C8. \<open>SetDefaultOutput\<close> with the value the node already has returns the heap it was given:
  no node changes, so every validity flag and every cached value is as before. It does not
  call \<open>RecursiveInvalidateCache\<close>, so no fuel is needed.
\<close>

theorem SetDefaultOutput_same_value_no_change:
  "h this = Some n \<Longrightarrow> SetDefaultOutput fuel h this (default_output n) = Inr h"
  by (simp add: SetDefaultOutput_def)

theorem SetDefaultOutput_same_value_no_change_witness:
  "SetDefaultOutput 0 evaluated_heap 0 2 = Inr evaluated_heap \<and>
   valid_after (SetDefaultOutput 0 evaluated_heap 0 2) 2 = Inr True"
proof -
  let ?n = "\<lparr>inputs = [], function_pointer = None, default_output = 2,
      outputs = [2], cached_output = 2, cached_output_valid = True\<rparr>"
  have "evaluated_heap 0 = Some ?n"
    by (simp add: evaluated_heap_def)
  with SetDefaultOutput_same_value_no_change[of evaluated_heap 0 ?n 0]
  have "SetDefaultOutput 0 evaluated_heap 0 2 = Inr evaluated_heap" by simp
  then show ?thesis
    by (simp add: valid_after_def and_then_def IsCacheValid_def evaluated_heap_def)
qed

text \<open>
  C9. \<open>FUNCTION_SET\<close> has 19 entries. Entry 0 is the null pointer, and a node whose function
  pointer is entry 0 returns its default output when its cache is not valid. Entries 1 to 18
  are the functions \<open>Sum\<close>, \<open>And\<close>, \<open>AnyEq\<close>, \<open>Not\<close>, \<open>Gate\<close>, \<open>Sin\<close>, \<open>Cos\<close>, \<open>Product\<close>,
  \<open>Exp\<close>, \<open>LessThan\<close>, \<open>GreaterThan\<close>, \<open>Max\<close>, \<open>Min\<close>, \<open>NegSum\<close>, \<open>Square\<close>, \<open>PosClamp\<close>,
  \<open>NegClamp\<close> and \<open>Sqrt\<close>, in this order.
\<close>

theorem FUNCTION_SET_order:
  assumes "h this = Some n" and "function_pointer n = FUNCTION_SET ! 0"
    and "\<not> cached_output_valid n"
  shows "length FUNCTION_SET = 19 \<and> FUNCTION_SET ! 0 = None \<and>
     tl FUNCTION_SET =
       map Some [SumFn, AndFn, AnyEqFn, NotFn, GateFn, SinFn, CosFn, ProductFn, ExpFn,
         LessThanFn, GreaterThanFn, MaxFn, MinFn, NegSumFn, SquareFn, PosClampFn, NegClampFn,
         SqrtFn] \<and>
     map (map_option call) (tl FUNCTION_SET) =
       map Some [Sum, And, AnyEq, Not_fn, Gate, Sin, Cos, Product, Exp, LessThan, GreaterThan,
         Max_fn, Min_fn, NegSum, Square, PosClamp, NegClamp, Sqrt] \<and>
     GetOutput (Suc fuel) h this =
       Inr (default_output n,
            h(this \<mapsto> n\<lparr>cached_output := default_output n, cached_output_valid := True\<rparr>))"
  using assms by (simp add: FUNCTION_SET_def)

theorem FUNCTION_SET_order_witness:
  "function_pointer (GraphNode_default 9) = FUNCTION_SET ! 0 \<and>
   \<not> cached_output_valid (GraphNode_default 9) \<and>
   length FUNCTION_SET = 19 \<and> FUNCTION_SET ! 0 = None \<and>
   FUNCTION_SET ! 1 = Some SumFn \<and> FUNCTION_SET ! 18 = Some SqrtFn \<and>
   output_of (GetOutput 1 (Map.empty(0 \<mapsto> GraphNode_default 9)) 0) = Inr 9"
proof -
  have 1: "(Map.empty(0 \<mapsto> GraphNode_default 9)) (0::nat) = Some (GraphNode_default 9)" by simp
  have 2: "function_pointer (GraphNode_default 9) = FUNCTION_SET ! 0"
    by (simp add: FUNCTION_SET_def node_defs)
  have 3: "\<not> cached_output_valid (GraphNode_default 9)" by (simp add: node_defs)
  from FUNCTION_SET_order[of "Map.empty(0 \<mapsto> GraphNode_default 9)" 0 "GraphNode_default 9" 0]
    1 2 3 show ?thesis
    by (simp add: output_of_def and_then_def node_defs FUNCTION_SET_def)
qed

text \<open>
  C10. The claim: a mutation of \<open>x\<close> leaves the validity flag and the cached value of every
  node that \<open>x\<close> reaches along input edges unchanged.

  \<open>RecursiveInvalidateCache\<close> follows the outputs lists and nothing else, and a node can be
  listed there and be reached along input edges as well. In the graph with the output edge
  left over, \<open>Y\<close> is an input of \<open>X\<close>, no node is reached from itself along input edges, the
  cache of \<open>Y\<close> is valid, and after \<open>X->SetDefaultOutput(7.)\<close> it is not.
\<close>

theorem invalidation_reaches_an_input:
  "(0, 1) \<in> in_edges stale_heap \<and> (0, 0) \<notin> (in_edges stale_heap)\<^sup>+ \<and>
   (1, 1) \<notin> (in_edges stale_heap)\<^sup>+ \<and>
   heap_of stale_evaluated = Inr stale_heap \<and>
   IsCacheValid stale_heap 1 = Inr True \<and>
   valid_after stale_mutated 1 = Inr False"
proof -
  have e: "in_edges stale_heap = {(0, 1)}"
    by (auto simp: in_edges_def stale_heap_def split: if_splits)
  have "(a, a) \<notin> (in_edges stale_heap)\<^sup>+" for a
  proof
    assume "(a, a) \<in> (in_edges stale_heap)\<^sup>+"
    then have "a \<in> Domain ((in_edges stale_heap)\<^sup>+)" and "a \<in> Range ((in_edges stale_heap)\<^sup>+)"
      by (rule DomainI, rule RangeI)
    then show False unfolding trancl_domain trancl_range e by simp
  qed
  then show ?thesis
    using e by (simp add: stale_evaluated_heap heap_of_def and_then_def valid_after_def
        stale_mutated_def stale_heap_def IsCacheValid_def SetDefaultOutput_def eval_nat_numeral)
qed

text \<open>
  As amended: a mutation of \<open>x\<close> that returns leaves the cached value of every node
  unchanged, and leaves the validity flag unchanged of every node that is not reachable from
  \<open>x\<close> along output edges. When every input edge of the graph is mirrored by an output edge,
  as \<open>AddInput\<close> records it, the nodes that \<open>x\<close> reaches along input edges are among these:
  their validity flags and cached values are unchanged. This holds for the edges before the
  mutation and for the edges after it.
\<close>

theorem mutation_leaves_other_caches:
  assumes "SetFunctionPointer fuel h x f = Inr h' \<or> AddInput fuel h x node = Inr h' \<or>
           AddInputs fuel h x nodes = Inr h' \<or> SetInputs fuel h x nodes = Inr h' \<or>
           SetDefaultOutput fuel h x v = Inr h'"
  shows "map_option cached_output (h' y) = map_option cached_output (h y) \<and>
         ((x, y) \<notin> (out_edges h)\<^sup>* \<longrightarrow> IsCacheValid h' y = IsCacheValid h y) \<and>
         (in_edges h \<subseteq> (out_edges h)\<inverse> \<and> (x, y) \<in> (in_edges h)\<^sup>+ \<or>
          in_edges h' \<subseteq> (out_edges h')\<inverse> \<and> (x, y) \<in> (in_edges h')\<^sup>+ \<longrightarrow>
            IsCacheValid h' y = IsCacheValid h y)"
proof (cases "h' = h")
  case True
  then show ?thesis by simp
next
  case False
  with mutation_runs_invalidation[OF assms] obtain h1 a where
    run: "RecursiveInvalidateCache fuel h1 x = Inr h'"
    and sub: "out_edges h \<subseteq> out_edges h1"
    and sup: "out_edges h1 \<subseteq> insert (a, x) (out_edges h)"
    and cache: "\<forall>b. map_option cached_output (h1 b) = map_option cached_output (h b) \<and>
                    IsCacheValid h1 b = IsCacheValid h b"
    by blast
  note frame = invalidated_elsewhere[OF run sup cache, of y]
  from RecursiveInvalidateCache_inv[OF run] have "flags_cleared h1 h'" by simp
  then have after: "out_edges h' = out_edges h1" by (rule flags_cleared_out_edges)
  have no_cycle: "(x, y) \<notin> (out_edges h)\<^sup>*"
    if edges: "out_edges g \<subseteq> out_edges h1" and mirrored: "in_edges g \<subseteq> (out_edges g)\<inverse>"
      and reach: "(x, y) \<in> (in_edges g)\<^sup>+" for g
  proof
    assume "(x, y) \<in> (out_edges h)\<^sup>*"
    then have there: "(x, y) \<in> (out_edges h1)\<^sup>*"
      using rtrancl_mono[OF sub] by (rule set_mp[rotated])
    from reach have "(x, y) \<in> ((out_edges g)\<inverse>)\<^sup>+"
      using trancl_mono[OF _ mirrored] by blast
    then have "(y, x) \<in> (out_edges g)\<^sup>+" by (simp add: trancl_converse)
    then have "(y, x) \<in> (out_edges h1)\<^sup>+" using trancl_mono[OF _ edges] by blast
    with there have "(x, x) \<in> (out_edges h1)\<^sup>+" by (rule rtrancl_trancl_trancl)
    from RecursiveInvalidateCache_cycle[OF this] run show False by blast
  qed
  have "(x, y) \<notin> (out_edges h)\<^sup>*"
    if "in_edges h \<subseteq> (out_edges h)\<inverse> \<and> (x, y) \<in> (in_edges h)\<^sup>+ \<or>
        in_edges h' \<subseteq> (out_edges h')\<inverse> \<and> (x, y) \<in> (in_edges h')\<^sup>+"
    using that no_cycle[of h] no_cycle[of h'] sub after by blast
  with frame show ?thesis by blast
qed

text \<open>
  In the evaluated scenario every input edge is mirrored, \<open>C\<close> is not reachable from itself
  along output edges and reaches \<open>B\<close> along an input edge; \<open>C->SetDefaultOutput(1.)\<close> leaves
  the cache of \<open>B\<close> valid and holding 5.
\<close>

theorem mutation_leaves_other_caches_witness:
  "in_edges evaluated_heap \<subseteq> (out_edges evaluated_heap)\<inverse> \<and>
   (2, 1) \<in> (in_edges evaluated_heap)\<^sup>+ \<and>
   (2, 1) \<notin> (out_edges evaluated_heap)\<^sup>* \<and>
   valid_after (SetDefaultOutput 2 evaluated_heap 2 1) 1 = Inr True \<and>
   and_then (SetDefaultOutput 2 evaluated_heap 2 1) (\<lambda>h. Inr (map_option cached_output (h 1)))
     = Inr (Some 5)"
proof -
  have o: "out_edges evaluated_heap = {(0, 2), (1, 2)}"
    by (auto simp: out_edges_def evaluated_heap_def split: if_splits)
  have i: "in_edges evaluated_heap = {(2, 0), (2, 1)}"
    by (auto simp: in_edges_def evaluated_heap_def split: if_splits)
  have mirrored: "in_edges evaluated_heap \<subseteq> (out_edges evaluated_heap)\<inverse>"
    unfolding o i by simp
  have reach: "(2, 1) \<in> (in_edges evaluated_heap)\<^sup>+"
    unfolding i by (rule r_into_trancl) simp
  have "(2, 1) \<notin> (out_edges evaluated_heap)\<^sup>+"
  proof
    assume "(2, 1) \<in> (out_edges evaluated_heap)\<^sup>+"
    then have "1 \<in> Range ((out_edges evaluated_heap)\<^sup>+)" by (rule RangeI)
    then show False unfolding trancl_range o by simp
  qed
  then have unreachable: "(2, 1) \<notin> (out_edges evaluated_heap)\<^sup>*"
    by (simp add: rtrancl_eq_or_trancl)
  obtain h' where run: "SetDefaultOutput 2 evaluated_heap 2 1 = Inr h'"
    by (simp add: evaluated_heap_def script_defs)
  from mutation_leaves_other_caches[where h=evaluated_heap and x=2 and y=1 and fuel=2
      and v=1 and h'=h', OF disjI2, OF disjI2, OF disjI2, OF disjI2, OF run]
    mirrored reach unreachable
  have "map_option cached_output (h' 1) = Some 5" and "IsCacheValid h' 1 = Inr True"
    by (simp_all add: evaluated_heap_def IsCacheValid_def)
  with mirrored reach unreachable run show ?thesis by (simp add: valid_after_def and_then_def)
qed

end
